theory Spec2Isabelle
  imports Complex_Main "HOL-Library.Word"
begin

unbundle bit_operations_syntax

section \<open>The GT3X log parser of \<open>src/parseGT3X.cpp\<close>\<close>

text \<open>
  The parser reads the file \<open>log.bin\<close> of a GT3X archive record by record and fills a
  matrix of acceleration samples and a vector of time stamps. The embedding follows the
  C++ source function by function.

  Conventions of the embedding:
  \<^item> the fixed-width integers of the source are words (\<open>uint8_t\<close> is \<open>8 word\<close>, and so
    on); \<open>int\<close> values that cannot overflow in the source are \<open>int\<close> or \<open>nat\<close>;
  \<^item> \<open>double\<close> values are the real numbers the binary64 format represents, and an
    arithmetic operation of the source on them is the exact operation followed by the
    rounding \<open>fl\<close> of its result to the nearest such number, ties to the even
    significand, once per operation (no fused multiply-add). The conversion of an integer
    of at most 32 bits to \<open>double\<close> is exact. The exponent range of the format is not
    modelled: \<open>fl\<close> rounds to 53 significant bits at any magnitude;
  \<^item> the input file is the list of its bytes, with a read position and the stream's
    failure flag;
  \<^item> a variable the source declares without initialising it starts with a value the
    caller of the model supplies (record \<open>indeterminate\<close>);
  \<^item> the text printed under \<open>verbose\<close> and \<open>debug\<close> is not modelled: the two flags
    only select what is printed. The two warnings of the framing loop are recorded.
\<close>

type_synonym u8 = "8 word"
type_synonym u16 = "16 word"
type_synonym u32 = "32 word"

subsection \<open>Constants\<close>

definition N_ACTIVITYCOLUMNS :: nat where
  "N_ACTIVITYCOLUMNS = 3"

definition SIGNIF_DIGITS :: nat where
  "SIGNIF_DIGITS = 3"

definition TIME_UNIT :: int where
  "TIME_UNIT = 100"

definition RECORDTYPE_ACTIVITY :: u8 where
  "RECORDTYPE_ACTIVITY = 0x00"

definition RECORDTYPE_PARAMETERS :: u8 where
  "RECORDTYPE_PARAMETERS = 0x15"

definition RECORDTYPE_ACTIVITY2 :: u8 where
  "RECORDTYPE_ACTIVITY2 = 0x1A"

definition PARAM_FLOAT_MAXIMUM :: real where
  "PARAM_FLOAT_MAXIMUM = 8388608"

definition PARAM_ENCODED_MINIMUM :: u32 where
  "PARAM_ENCODED_MINIMUM = 0x00800000"

definition PARAM_ENCODED_MAXIMUM :: u32 where
  "PARAM_ENCODED_MAXIMUM = 0x007FFFFF"

definition PARAM_SIGNIFICAND_MASK :: u32 where
  "PARAM_SIGNIFICAND_MASK = 0x00FFFFFF"

definition PARAM_EXPONENT_MASK :: u32 where
  "PARAM_EXPONENT_MASK = 0xFF000000"

definition PARAM_EXPONENT_OFFSET :: nat where
  "PARAM_EXPONENT_OFFSET = 24"

text \<open>\<open>DBL_MAX\<close> of \<open>float.h\<close>: the largest finite binary64 value, \<open>(2^53 - 1) * 2^971\<close>.\<close>

definition DBL_MAX :: real where
  "DBL_MAX = (2 ^ 53 - 1) * 2 ^ 971"

text \<open>\<open>EOF\<close>, the value \<open>get\<close> returns when it extracts no character.\<close>

definition EOF :: int where
  "EOF = - 1"

text \<open>
  \<open>std::ios::cur\<close> is the seek direction "from the current position", an enumerator of
  the standard library and not a stream position. Its value is 1 in libstdc++ (where it is
  \<open>SEEK_CUR\<close>), in libc++ and in the Microsoft library.
\<close>

definition ios_cur :: int where
  "ios_cur = 1"

subsection \<open>Arithmetic of \<open>math.h\<close>\<close>

text \<open>\<open>round\<close>: to the nearest integer, halfway cases away from zero.\<close>

definition c_round :: "real \<Rightarrow> int" where
  "c_round x = (if 0 \<le> x then \<lfloor>x + 1 / 2\<rfloor> else - \<lfloor>- x + 1 / 2\<rfloor>)"

text \<open>\<open>pow(2.0, e)\<close> for an integral exponent.\<close>

definition pow2 :: "int \<Rightarrow> real" where
  "pow2 e = (if 0 \<le> e then 2 ^ nat e else 1 / 2 ^ nat (- e))"

subsection \<open>Arithmetic of binary64\<close>

text \<open>The integer nearest to \<open>y\<close>, the even one of the two when \<open>y\<close> is halfway.\<close>

definition rne :: "real \<Rightarrow> int" where
  "rne y =
     (let n = \<lfloor>y\<rfloor>
      in if y - of_int n < 1 / 2 then n
         else if 1 / 2 < y - of_int n then n + 1
         else if even n then n else n + 1)"

text \<open>The position of the leading bit of a positive integer.\<close>

function ilog2 :: "int \<Rightarrow> int" where
  "ilog2 n = (if n < 2 then 0 else 1 + ilog2 (n div 2))"
  by pat_completeness auto
termination
  by (relation "measure nat") auto

declare ilog2.simps [simp del]

text \<open>The exponent \<open>e\<close> with \<open>2^e \<le> |x| < 2^(e + 1)\<close>, for \<open>x\<close> other than 0.\<close>

definition binade :: "real \<Rightarrow> int" where
  "binade x = (if 1 \<le> \<bar>x\<bar> then ilog2 \<lfloor>\<bar>x\<bar>\<rfloor>
               else - (ilog2 (\<lceil>1 / \<bar>x\<bar>\<rceil> - 1) + 1))"

text \<open>
  The rounding of the result of an operation: the multiple of \<open>2^(e - 52)\<close> nearest to
  \<open>x\<close>, where \<open>e\<close> is the exponent of \<open>x\<close>; the significand has 53 bits.
\<close>

definition fl :: "real \<Rightarrow> real" where
  "fl x = (if x = 0 then 0
           else of_int (rne (x / pow2 (binade x - 52))) * pow2 (binade x - 52))"

subsection \<open>The input stream\<close>

text \<open>
  An \<open>ifstream\<close> opened in binary mode: the bytes of the file, the read position and
  \<open>failbit\<close>. In this program \<open>eofbit\<close> is only ever set together with \<open>failbit\<close>
  (by a \<open>get\<close> or a \<open>read\<close> that finds too few bytes), so one flag is enough.
  \<open>operator bool\<close> of the stream is \<open>\<not> sfail\<close>.
\<close>

record istream =
  sdata :: "u8 list"
  spos :: nat
  sfail :: bool

text \<open>The stream right after a successful \<open>open\<close>.\<close>

definition open_stream :: "u8 list \<Rightarrow> istream" where
  "open_stream bs = \<lparr>sdata = bs, spos = 0, sfail = False\<rparr>"

text \<open>
  \<open>stream.get()\<close>: the next byte as a non-negative \<open>int\<close>; at the end of the file it
  sets the failure flag and returns \<open>EOF\<close>; on a failed stream it returns \<open>EOF\<close>.
\<close>

definition stream_get :: "istream \<Rightarrow> istream \<times> int" where
  "stream_get s =
     (if sfail s then (s, EOF)
      else if spos s < length (sdata s)
        then (s\<lparr>spos := spos s + 1\<rparr>, uint (sdata s ! spos s))
        else (s\<lparr>sfail := True\<rparr>, EOF))"

text \<open>
  \<open>stream.read(buf, n)\<close>: the bytes it stores into the buffer, in order. On a failed
  stream it stores nothing. When fewer than \<open>n\<close> bytes are left it stores those and
  sets the failure flag.
\<close>

definition stream_read :: "istream \<Rightarrow> nat \<Rightarrow> istream \<times> u8 list" where
  "stream_read s n =
     (if sfail s then (s, [])
      else let got = take n (drop (spos s) (sdata s))
           in (s\<lparr>spos := spos s + length got, sfail := length got < n\<rparr>, got))"

text \<open>
  \<open>stream.seekg(off, std::ios::cur)\<close> for \<open>off \<ge> 0\<close>: nothing on a failed stream;
  otherwise the position moves forward, also past the end of the file (the next
  extraction then fails).
\<close>

definition stream_seekg_cur :: "istream \<Rightarrow> nat \<Rightarrow> istream" where
  "stream_seekg_cur s off = (if sfail s then s else s\<lparr>spos := spos s + off\<rparr>)"

text \<open>
  The source reads integers with \<open>read(reinterpret_cast<char*>(&v), n)\<close>: the bytes
  extracted overwrite the first bytes of the object \<open>v\<close>, the others keep what they held.
  On the little-endian hosts the file format is read on, the first byte is the least
  significant one.
\<close>

fun le_word :: "u8 list \<Rightarrow> 'a::len word" where
  "le_word [] = 0"
| "le_word (b # bs) = ucast b OR push_bit 8 (le_word bs)"

definition le_bytes :: "nat \<Rightarrow> 'a::len word \<Rightarrow> u8 list" where
  "le_bytes n w = map (\<lambda>k. ucast (drop_bit (8 * k) w)) [0..<n]"

definition read_word :: "istream \<Rightarrow> nat \<Rightarrow> 'a::len word \<Rightarrow> istream \<times> 'a word" where
  "read_word s n old =
     (let (s', got) = stream_read s n
      in (s', le_word (got @ drop (length got) (le_bytes n old))))"

subsection \<open>Uninitialised variables\<close>

text \<open>
  \<open>parseGT3X\<close> declares \<open>type\<close>, \<open>size\<close>, \<open>payload_start\<close> and \<open>start_time\<close> without
  an initial value, \<open>ParseParameters\<close> declares \<open>address\<close>, \<open>key\<close> and \<open>value\<close> so, and
  \<open>ParseActivity2\<close> declares \<open>item\<close> so. The model takes what they hold at their
  declaration from this record (the same values at every call of the two functions).
\<close>

record indeterminate =
  u_type :: u8
  u_size :: u16
  u_payload_start :: u32
  u_start_time :: u32
  u_address :: u16
  u_key :: u16
  u_value :: u32
  u_item :: u16

subsection \<open>Parameters\<close>

text \<open>\<open>decodeFloatParameterValue\<close>. The local \<open>i32\<close> is kept as its 32 bits and read as
  a signed number where the source converts it to \<open>double\<close>. The division by \<open>2^23\<close> and
  the product with a power of two are exact in binary64 (lemma \<open>decode_exact\<close>), so
  no rounding is written.\<close>

definition decodeFloatParameterValue :: "u32 \<Rightarrow> real" where
  "decodeFloatParameterValue v =
     (if PARAM_ENCODED_MAXIMUM = v then DBL_MAX
      else if PARAM_ENCODED_MINIMUM = v then - DBL_MAX
      else
        let e0 = drop_bit PARAM_EXPONENT_OFFSET (v AND PARAM_EXPONENT_MASK);
            e1 = (if 0 \<noteq> (e0 AND 0x80) then e0 OR 0xFFFFFF00 else e0);
            exponent = sint e1;
            s0 = v AND PARAM_SIGNIFICAND_MASK;
            s1 = (if 0 \<noteq> (s0 AND PARAM_ENCODED_MINIMUM) then s0 OR 0xFF000000 else s0);
            significand = real_of_int (sint s1) / PARAM_FLOAT_MAXIMUM
        in significand * pow2 exponent)"

text \<open>The locals of \<open>ParseParameters\<close> and the \<open>start_time\<close> it has by reference.\<close>

record param_state =
  p_stream :: istream
  p_address :: u16
  p_key :: u16
  p_value :: u32
  p_start_time :: u32

text \<open>One turn of the loop of \<open>ParseParameters\<close>: three reads, then the branches on
  \<open>address\<close> and \<open>key\<close>. The branch for \<open>address = 0\<close> only prints.\<close>

definition param_entry :: "param_state \<Rightarrow> param_state" where
  "param_entry st =
     (let (s1, address) = read_word (p_stream st) 2 (p_address st);
          (s2, key) = read_word s1 2 (p_key st);
          (s3, v) = read_word s2 4 (p_value st);
          st' = st\<lparr>p_stream := s3, p_address := address, p_key := key, p_value := v\<rparr>
      in if address = 0 then st'
         else if address = 1 then (if key = 12 then st'\<lparr>p_start_time := v\<rparr> else st')
         else st')"

primrec param_loop :: "nat \<Rightarrow> param_state \<Rightarrow> param_state" where
  "param_loop 0 st = st"
| "param_loop (Suc n) st = param_loop n (param_entry st)"

text \<open>\<open>ParseParameters(stream, bytes, start_time, verbose)\<close>: the stream and
  \<open>start_time\<close> after the call.\<close>

definition ParseParameters :: "indeterminate \<Rightarrow> istream \<Rightarrow> int \<Rightarrow> u32 \<Rightarrow> istream \<times> u32" where
  "ParseParameters u s bytes start_time =
     (let n_params = bytes div 8;
          st = param_loop (nat n_params)
                 \<lparr>p_stream = s, p_address = u_address u, p_key = u_key u,
                  p_value = u_value u, p_start_time = start_time\<rparr>
      in (p_stream st, p_start_time st))"

subsection \<open>Time stamps\<close>

text \<open>
  \<open>createTimeStamp\<close>. The subtraction is one of \<open>uint32_t\<close> and wraps around.
  \<open>timestamp_units\<close> is the rounded \<open>double\<close> of the \<open>return\<close> statement, with its
  four operations on doubles (the quotient \<open>1.0 / sample_rate\<close>, the product with
  \<open>i\<close>, the sum, the product with \<open>TIME_UNIT\<close>) each rounded to binary64;
  \<open>createTimeStamp\<close> is its conversion to the return type \<open>uint32_t\<close>. The language
  leaves that conversion undefined for a value outside \<open>0 .. 2^32 - 1\<close>; the model takes
  the low 32 bits there. For \<open>sample_rate = 0\<close> the source divides by zero (the
  result is an infinity or a NaN); the interface asks for a positive rate.
\<close>

definition timestamp_units :: "u32 \<Rightarrow> int \<Rightarrow> int \<Rightarrow> u32 \<Rightarrow> int" where
  "timestamp_units payload_start i sample_rate start_time =
     c_round (fl (fl (real_of_int (uint (payload_start - start_time))
                      + fl (real_of_int i * fl (1 / real_of_int sample_rate)))
                  * real_of_int TIME_UNIT))"

definition createTimeStamp :: "u32 \<Rightarrow> int \<Rightarrow> int \<Rightarrow> u32 \<Rightarrow> u32" where
  "createTimeStamp payload_start i sample_rate start_time =
     word_of_int (timestamp_units payload_start i sample_rate start_time)"

subsection \<open>The activity matrix\<close>

text \<open>
  \<open>NumericMatrix activity(max_samples, 3)\<close> is a list of rows of three cells, all 0 at
  first; \<open>IntegerVector timeStamps(max_samples)\<close> is a list of 32-bit signed integers,
  all 0 at first. \<open>activity(r, j) = v\<close> does not check its indices; the framing loop
  calls a decoder only after its capacity test, with \<open>start + sample_size \<le> max_samples\<close>
  (lemma \<open>frame_step_capacity\<close> has the bound for every turn), so every write below is
  inside the matrix.
\<close>

type_synonym matrix = "real list list"

definition new_matrix :: "nat \<Rightarrow> matrix" where
  "new_matrix n = replicate n (replicate N_ACTIVITYCOLUMNS 0)"

definition set_cell :: "matrix \<Rightarrow> nat \<Rightarrow> nat \<Rightarrow> real \<Rightarrow> matrix" where
  "set_cell M r j v = M[r := (M ! r)[j := v]]"

definition cell :: "matrix \<Rightarrow> nat \<Rightarrow> nat \<Rightarrow> real" where
  "cell M r j = M ! r ! j"

text \<open>The conversion of the \<open>uint32_t\<close> time stamp to an element of the integer vector.\<close>

definition set_stamp :: "int list \<Rightarrow> nat \<Rightarrow> u32 \<Rightarrow> int list" where
  "set_stamp ts r t = ts[r := sint t]"

subsection \<open>Activity records of type 2\<close>

record act2_state =
  a2_stream :: istream
  a2_activity :: matrix
  a2_timeStamps :: "int list"
  a2_item :: u16

text \<open>The body of the inner loop of \<open>ParseActivity2\<close>: read two bytes into \<open>item\<close>
  (an \<open>int16_t\<close>) and store it, whether or not the read succeeded.\<close>

definition act2_cell :: "nat \<Rightarrow> nat \<Rightarrow> act2_state \<Rightarrow> act2_state" where
  "act2_cell r j st =
     (let (s', item) = read_word (a2_stream st) 2 (a2_item st)
      in st\<lparr>a2_stream := s', a2_item := item,
             a2_activity := set_cell (a2_activity st) r j (real_of_int (sint item))\<rparr>)"

definition act2_row :: "nat \<Rightarrow> u32 \<Rightarrow> int \<Rightarrow> u32 \<Rightarrow> nat \<Rightarrow> act2_state \<Rightarrow> act2_state" where
  "act2_row start payload_start sample_rate start_time i st =
     (let st' = fold (act2_cell (i + start)) [0..<N_ACTIVITYCOLUMNS] st
      in st'\<lparr>a2_timeStamps := set_stamp (a2_timeStamps st') (i + start)
                (createTimeStamp payload_start (int i) sample_rate start_time)\<rparr>)"

definition ParseActivity2 ::
  "indeterminate \<Rightarrow> istream \<Rightarrow> matrix \<Rightarrow> int list \<Rightarrow> nat \<Rightarrow> nat \<Rightarrow> u32 \<Rightarrow> int \<Rightarrow> u32
     \<Rightarrow> istream \<times> matrix \<times> int list" where
  "ParseActivity2 u s activity ts start sample_size payload_start sample_rate start_time =
     (let st = fold (act2_row start payload_start sample_rate start_time) [0..<sample_size]
                 \<lparr>a2_stream = s, a2_activity = activity, a2_timeStamps = ts,
                  a2_item = u_item u\<rparr>
      in (a2_stream st, a2_activity st, a2_timeStamps st))"

subsection \<open>Activity records of type 1\<close>

text \<open>The 12-bit field in \<open>shifter\<close>, sign-extended and converted to \<open>int16_t\<close>.\<close>

definition sign_extend12 :: "u16 \<Rightarrow> int" where
  "sign_extend12 shifter = sint (if 0 \<noteq> (shifter AND 0x0800) then shifter OR 0xF000 else shifter)"

text \<open>The fields the two branches of the inner loop assemble from \<open>int\<close> values of
  \<open>get\<close>.\<close>

definition even_field :: "int \<Rightarrow> int \<Rightarrow> u16" where
  "even_field c1 c2 =
     (word_of_int (push_bit 4 (c1 AND 0xFF)) :: u16) OR word_of_int (drop_bit 4 (c2 AND 0xF0))"

definition odd_field :: "int \<Rightarrow> int \<Rightarrow> u16" where
  "odd_field c1 c2 = (word_of_int (push_bit 8 (c1 AND 0x0F)) :: u16) OR word_of_int (c2 AND 0xFF)"

record act1_state =
  a1_stream :: istream
  a1_activity :: matrix
  a1_timeStamps :: "int list"
  a1_odd :: bool
  a1_current :: int

text \<open>
  The body of the inner loop of \<open>ParseActivity\<close>. The result is paired with \<open>False\<close>
  when the body leaves the inner loop by \<open>break\<close>. Only the odd branch tests the
  stream.
\<close>

definition act1_value :: "nat \<Rightarrow> nat \<Rightarrow> act1_state \<Rightarrow> bool \<times> act1_state" where
  "act1_value r j st =
     (if \<not> a1_odd st then
        (let (s1, c1) = stream_get (a1_stream st);
             (s2, c2) = stream_get s1
         in (True, st\<lparr>a1_stream := s2, a1_current := c2, a1_odd := True,
                 a1_activity := set_cell (a1_activity st) r j
                                  (real_of_int (sign_extend12 (even_field c1 c2)))\<rparr>))
      else
        (let (s1, c) = stream_get (a1_stream st)
         in if sfail s1 then (False, st\<lparr>a1_stream := s1, a1_current := c\<rparr>)
            else (True, st\<lparr>a1_stream := s1, a1_current := c, a1_odd := False,
                    a1_activity := set_cell (a1_activity st) r j
                                     (real_of_int (sign_extend12 (odd_field (a1_current st) c)))\<rparr>)))"

fun act1_cols :: "nat \<Rightarrow> nat list \<Rightarrow> act1_state \<Rightarrow> act1_state" where
  "act1_cols r [] st = st"
| "act1_cols r (j # js) st =
     (case act1_value r j st of
        (True, st') \<Rightarrow> act1_cols r js st'
      | (False, st') \<Rightarrow> st')"

definition act1_row :: "nat \<Rightarrow> u32 \<Rightarrow> int \<Rightarrow> u32 \<Rightarrow> nat \<Rightarrow> act1_state \<Rightarrow> act1_state" where
  "act1_row start payload_start sample_rate start_time i st =
     (let st' = act1_cols (i + start) [0..<N_ACTIVITYCOLUMNS] st
      in st'\<lparr>a1_timeStamps := set_stamp (a1_timeStamps st') (i + start)
                (createTimeStamp payload_start (int i) sample_rate start_time)\<rparr>)"

definition ParseActivity ::
  "istream \<Rightarrow> matrix \<Rightarrow> int list \<Rightarrow> nat \<Rightarrow> nat \<Rightarrow> u32 \<Rightarrow> int \<Rightarrow> u32
     \<Rightarrow> istream \<times> matrix \<times> int list" where
  "ParseActivity s activity ts start sample_size payload_start sample_rate start_time =
     (let st = fold (act1_row start payload_start sample_rate start_time) [0..<sample_size]
                 \<lparr>a1_stream = s, a1_activity = activity, a1_timeStamps = ts,
                  a1_odd = False, a1_current = 0\<rparr>
      in (a1_stream st, a1_activity st, a1_timeStamps st))"

subsection \<open>Helpers of the main parser\<close>

definition ParseHeader :: "istream \<Rightarrow> u8 \<Rightarrow> u32 \<Rightarrow> u16 \<Rightarrow> istream \<times> u8 \<times> u32 \<times> u16" where
  "ParseHeader s type timestamp sz =
     (let (s1, type') = read_word s 1 type;
          (s2, timestamp') = read_word s1 4 timestamp;
          (s3, sz') = read_word s2 2 sz
      in (s3, type', timestamp', sz'))"

text \<open>\<open>bytes2samplesize\<close>: both operands are promoted to \<open>int\<close>, which holds
  \<open>2 * 65535\<close>.\<close>

definition bytes2samplesize :: "u8 \<Rightarrow> u16 \<Rightarrow> int" where
  "bytes2samplesize type bytes =
     (if type = RECORDTYPE_ACTIVITY then (uint bytes * 2) div 9
      else if type = RECORDTYPE_ACTIVITY2 then (uint bytes div 2) div 3
      else 0)"

text \<open>\<open>scaleAndRoundActivity(M, scale, records)\<close> with \<open>digits = SIGNIF_DIGITS\<close>. The two
  quotients and the product of the assignment are each rounded to binary64;
  \<open>pow(10, 3)\<close> is 1000.\<close>

definition scale_cell :: "real \<Rightarrow> real \<Rightarrow> nat \<Rightarrow> nat \<Rightarrow> matrix \<Rightarrow> matrix" where
  "scale_cell scale digit_multiplier j i M =
     set_cell M i j
       (fl (real_of_int (c_round (fl (fl (cell M i j / scale) * digit_multiplier)))
            / digit_multiplier))"

definition scaleAndRoundActivity :: "matrix \<Rightarrow> real \<Rightarrow> int \<Rightarrow> matrix" where
  "scaleAndRoundActivity M scale records =
     (let records' = (if records = - 1 then int (length M) else records);
          digit_multiplier = 10 ^ SIGNIF_DIGITS
      in fold (\<lambda>j. fold (scale_cell scale digit_multiplier j) [0..<nat records'])
           [0..<N_ACTIVITYCOLUMNS] M)"

subsection \<open>The framing loop\<close>

definition RECORD_SEPARATOR :: u8 where
  "RECORD_SEPARATOR = 30"

datatype warning = MaxSamplesReached | NotRecordSeparator u8

text \<open>The variables of \<open>parseGT3X\<close> that live across turns of its loop, and the
  warnings printed so far.\<close>

record parser_state =
  g_stream :: istream
  g_activity :: matrix
  g_timeStamps :: "int list"
  g_type :: u8
  g_size :: u16
  g_payload_start :: u32
  g_start_time :: u32
  g_total_records :: int
  g_warnings :: "warning list"

text \<open>The dispatch on the record type, after the capacity test.\<close>

definition dispatch :: "indeterminate \<Rightarrow> int \<Rightarrow> int \<Rightarrow> parser_state \<Rightarrow> parser_state" where
  "dispatch u sample_rate sample_size st =
     (if g_type st = RECORDTYPE_PARAMETERS then
        (let (s', t) = ParseParameters u (g_stream st) (uint (g_size st)) (g_start_time st)
         in st\<lparr>g_stream := s', g_start_time := t\<rparr>)
      else if g_type st = RECORDTYPE_ACTIVITY then
        (let (s', M, T) = ParseActivity (g_stream st) (g_activity st) (g_timeStamps st)
                            (nat (g_total_records st)) (nat sample_size) (g_payload_start st)
                            sample_rate (g_start_time st)
         in st\<lparr>g_stream := s', g_activity := M, g_timeStamps := T,
                g_total_records := g_total_records st + sample_size\<rparr>)
      else if g_type st = RECORDTYPE_ACTIVITY2 then
        (let (s', M, T) = ParseActivity2 u (g_stream st) (g_activity st) (g_timeStamps st)
                            (nat (g_total_records st)) (nat sample_size) (g_payload_start st)
                            sample_rate (g_start_time st)
         in st\<lparr>g_stream := s', g_activity := M, g_timeStamps := T,
                g_total_records := g_total_records st + sample_size\<rparr>)
      else st\<lparr>g_stream := stream_seekg_cur (g_stream st) (unat (g_size st))\<rparr>)"

text \<open>
  One turn of the \<open>while\<close> loop, entered with a stream that has not failed. The result
  is paired with \<open>False\<close> when the turn leaves the loop by \<open>break\<close>.
\<close>

definition frame_step :: "indeterminate \<Rightarrow> int \<Rightarrow> int \<Rightarrow> parser_state \<Rightarrow> bool \<times> parser_state" where
  "frame_step u max_samples sample_rate st =
     (let (s1, c) = stream_get (g_stream st);
          item = (word_of_int c :: u8)
      in if sfail s1 then (False, st\<lparr>g_stream := s1\<rparr>)
         else if item = RECORD_SEPARATOR then
           (let (s2, type, payload_start, sz) =
                  ParseHeader s1 (g_type st) (g_payload_start st) (g_size st);
                sample_size = bytes2samplesize type sz;
                st1 = st\<lparr>g_stream := s2, g_type := type, g_payload_start := payload_start,
                         g_size := sz\<rparr>
            in if sample_size > max_samples - g_total_records st
               then (False, st1\<lparr>g_warnings := g_warnings st @ [MaxSamplesReached]\<rparr>)
               else
                 (let st2 = dispatch u sample_rate sample_size st1;
                      (s3, chksum) = stream_get (g_stream st2)
                  in (True, st2\<lparr>g_stream := s3\<rparr>)))
         else if ios_cur > 1
           then (True, st\<lparr>g_stream := s1, g_warnings := g_warnings st @ [NotRecordSeparator item]\<rparr>)
           else (True, st\<lparr>g_stream := s1\<rparr>))"

subsection \<open>The framing loop ends\<close>

text \<open>No operation changes the bytes of the file or moves the read position back, and
  a turn of the loop that does not leave it has extracted a byte.\<close>

definition advances :: "istream \<Rightarrow> istream \<Rightarrow> bool" where
  "advances s s' = (sdata s' = sdata s \<and> spos s \<le> spos s')"

lemma advances_refl: "advances s s"
  by (simp add: advances_def)

lemma advances_trans: "advances a b \<Longrightarrow> advances b c \<Longrightarrow> advances a c"
  by (auto simp: advances_def)

lemma stream_get_advances: "stream_get s = (s', c) \<Longrightarrow> advances s s'"
  by (auto simp: stream_get_def advances_def split: if_splits)

lemma stream_get_progress:
  "stream_get s = (s', c) \<Longrightarrow> \<not> sfail s' \<Longrightarrow>
     sdata s' = sdata s \<and> spos s < length (sdata s) \<and> spos s' = spos s + 1"
  by (auto simp: stream_get_def split: if_splits)

lemma stream_read_advances: "stream_read s n = (s', bs) \<Longrightarrow> advances s s'"
  by (auto simp: stream_read_def advances_def Let_def split: if_splits)

lemma read_word_advances: "read_word s n old = (s', w) \<Longrightarrow> advances s s'"
  by (auto simp: read_word_def split: prod.splits dest: stream_read_advances)

lemma stream_seekg_cur_advances: "advances s (stream_seekg_cur s off)"
  by (simp add: stream_seekg_cur_def advances_def)

lemma ParseHeader_advances: "ParseHeader s t ts sz = (s', r) \<Longrightarrow> advances s s'"
  by (auto simp: ParseHeader_def split: prod.splits
      dest!: read_word_advances intro: advances_trans)

lemma param_entry_advances: "advances (p_stream st) (p_stream (param_entry st))"
  by (auto simp: param_entry_def Let_def split: prod.splits
      dest!: read_word_advances intro: advances_trans)

lemma param_loop_advances: "advances (p_stream st) (p_stream (param_loop n st))"
proof (induction n arbitrary: st)
  case 0
  show ?case by (simp add: advances_refl)
next
  case (Suc n)
  show ?case
    using advances_trans [OF param_entry_advances Suc.IH] by simp
qed

lemma ParseParameters_advances: "advances s (fst (ParseParameters u s b t))"
  using param_loop_advances [of "\<lparr>p_stream = s, p_address = u_address u, p_key = u_key u,
    p_value = u_value u, p_start_time = t\<rparr>"]
  by (simp add: ParseParameters_def Let_def)

lemma act2_cell_advances: "advances (a2_stream st) (a2_stream (act2_cell r j st))"
  by (auto simp: act2_cell_def split: prod.splits dest: read_word_advances)

lemma fold_advances:
  assumes "\<And>x st. advances (sel st) (sel (f x st))"
  shows "advances (sel st) (sel (fold f xs st))"
proof (induction xs arbitrary: st)
  case Nil
  show ?case by (simp add: advances_refl)
next
  case (Cons x xs)
  show ?case
    using advances_trans [OF assms Cons.IH] by simp
qed

lemma act2_row_advances: "advances (a2_stream st) (a2_stream (act2_row a p r t i st))"
  using fold_advances [of a2_stream "act2_cell (i + a)", OF act2_cell_advances]
  by (simp add: act2_row_def Let_def)

lemma ParseActivity2_advances: "advances s (fst (ParseActivity2 u s M T a n p r t))"
  using fold_advances [of a2_stream "act2_row a p r t", OF act2_row_advances,
    of "\<lparr>a2_stream = s, a2_activity = M, a2_timeStamps = T, a2_item = u_item u\<rparr>"]
  by (simp add: ParseActivity2_def Let_def)

lemma act1_value_advances:
  "act1_value r j st = (b, st') \<Longrightarrow> advances (a1_stream st) (a1_stream st')"
  by (auto simp: act1_value_def Let_def split: prod.splits if_splits
      dest!: stream_get_advances intro: advances_trans)

lemma act1_cols_advances: "advances (a1_stream st) (a1_stream (act1_cols r js st))"
proof (induction js arbitrary: st)
  case Nil
  show ?case by (simp add: advances_refl)
next
  case (Cons j js)
  show ?case
  proof (cases "act1_value r j st")
    case (Pair b st')
    with Cons.IH [of st'] act1_value_advances [OF Pair] show ?thesis
      by (cases b) (auto intro: advances_trans)
  qed
qed

lemma act1_row_advances: "advances (a1_stream st) (a1_stream (act1_row a p r t i st))"
  using act1_cols_advances by (simp add: act1_row_def Let_def)

lemma ParseActivity_advances: "advances s (fst (ParseActivity s M T a n p r t))"
  using fold_advances [of a1_stream "act1_row a p r t", OF act1_row_advances,
    of "\<lparr>a1_stream = s, a1_activity = M, a1_timeStamps = T, a1_odd = False, a1_current = 0\<rparr>"]
  by (simp add: ParseActivity_def Let_def)

lemma dispatch_advances: "advances (g_stream st) (g_stream (dispatch u sr n st))"
  using ParseParameters_advances [of "g_stream st" u "uint (g_size st)" "g_start_time st"]
    ParseActivity_advances [of "g_stream st" "g_activity st" "g_timeStamps st"
      "nat (g_total_records st)" "nat n" "g_payload_start st" sr "g_start_time st"]
    ParseActivity2_advances [of "g_stream st" u "g_activity st" "g_timeStamps st"
      "nat (g_total_records st)" "nat n" "g_payload_start st" sr "g_start_time st"]
  by (auto simp: dispatch_def stream_seekg_cur_advances split: prod.splits)

lemma frame_step_progress:
  assumes "frame_step u ms sr st = (True, st')"
  shows "sdata (g_stream st') = sdata (g_stream st) \<and>
         spos (g_stream st) < length (sdata (g_stream st)) \<and>
         spos (g_stream st) < spos (g_stream st')"
proof -
  obtain s1 c where g: "stream_get (g_stream st) = (s1, c)"
    by (cases "stream_get (g_stream st)")
  from assms g have nf: "\<not> sfail s1"
    by (auto simp: frame_step_def split: if_splits)
  note p = stream_get_progress [OF g nf]
  have "advances s1 (g_stream st')"
  proof (cases "(word_of_int c :: u8) = RECORD_SEPARATOR")
    case False
    with assms g nf show ?thesis
      by (auto simp: frame_step_def Let_def advances_refl split: if_splits)
  next
    case True
    obtain s2 ty ps sz where h: "ParseHeader s1 (g_type st) (g_payload_start st) (g_size st) = (s2, ty, ps, sz)"
      by (cases "ParseHeader s1 (g_type st) (g_payload_start st) (g_size st)") auto
    define st1 where "st1 = st\<lparr>g_stream := s2, g_type := ty, g_payload_start := ps, g_size := sz\<rparr>"
    define st2 where "st2 = dispatch u sr (bytes2samplesize ty sz) st1"
    obtain s3 ck where k: "stream_get (g_stream st2) = (s3, ck)"
      by (cases "stream_get (g_stream st2)")
    from assms g nf True h k have e: "st' = st2\<lparr>g_stream := s3\<rparr>"
      by (auto simp: frame_step_def Let_def st1_def st2_def split: if_splits)
    have a1: "advances s1 s2" using ParseHeader_advances [OF h] .
    have a2: "advances s2 (g_stream st2)"
      using dispatch_advances [of st1 u sr "bytes2samplesize ty sz"]
      by (simp add: st2_def st1_def)
    have a3: "advances (g_stream st2) s3" using stream_get_advances [OF k] .
    show ?thesis
      using advances_trans [OF a1 advances_trans [OF a2 a3]] by (simp add: e)
  qed
  with p show ?thesis by (auto simp: advances_def)
qed


function parse_loop :: "indeterminate \<Rightarrow> int \<Rightarrow> int \<Rightarrow> parser_state \<Rightarrow> parser_state" where
  "parse_loop u max_samples sample_rate st =
     (if sfail (g_stream st) then st
      else case frame_step u max_samples sample_rate st of
             (True, st') \<Rightarrow> parse_loop u max_samples sample_rate st'
           | (False, st') \<Rightarrow> st')"
  by pat_completeness auto
termination
proof (relation "measure (\<lambda>(u, ms, sr, st). length (sdata (g_stream st)) - spos (g_stream st))")
qed (auto dest!: frame_step_progress [OF sym])

declare parse_loop.simps [simp del]

subsection \<open>The result\<close>

text \<open>
  \<open>NumericMatrix(max_samples, 3)\<close> raises an R error for a negative number of rows.
  \<open>Range(a, b)\<close> of Rcpp throws \<open>std::range_error\<close> ("upper value must be greater
  than lower value") when \<open>a > b\<close>; the exported function then ends in an R error.
\<close>

datatype error = AllocationError | RangeError

definition Range :: "int \<Rightarrow> int \<Rightarrow> error + int \<times> int" where
  "Range a b = (if a > b then Inl RangeError else Inr (a, b))"

text \<open>The elements of a vector (or the rows of a matrix) a range selects.\<close>

definition subrange :: "int \<times> int \<Rightarrow> 'a list \<Rightarrow> 'a list" where
  "subrange r xs = take (nat (snd r - fst r + 1)) (drop (nat (fst r)) xs)"

text \<open>What \<open>parseGT3X\<close> returns: the matrix \<open>out\<close> and its attributes \<open>time_index\<close>,
  \<open>start_time\<close> and \<open>sample_rate\<close>.\<close>

record gt3x_result =
  r_samples :: matrix
  r_time_index :: "int list"
  r_start_time :: u32
  r_sample_rate :: int

text \<open>The state of \<open>parseGT3X\<close> before its loop, for a file that was opened.\<close>

definition initial_state :: "indeterminate \<Rightarrow> u8 list \<Rightarrow> int \<Rightarrow> parser_state" where
  "initial_state u bytes max_samples =
     \<lparr>g_stream = open_stream bytes,
      g_activity = new_matrix (nat max_samples),
      g_timeStamps = replicate (nat max_samples) 0,
      g_type = u_type u, g_size = u_size u, g_payload_start = u_payload_start u,
      g_start_time = u_start_time u, g_total_records = 0, g_warnings = []\<rparr>"

text \<open>The state of \<open>parseGT3X\<close> after its loop.\<close>

definition parse_records :: "indeterminate \<Rightarrow> u8 list \<Rightarrow> int \<Rightarrow> int \<Rightarrow> parser_state" where
  "parse_records u bytes max_samples sample_rate =
     parse_loop u max_samples sample_rate (initial_state u bytes max_samples)"

definition parseGT3X ::
  "indeterminate \<Rightarrow> u8 list \<Rightarrow> int \<Rightarrow> real \<Rightarrow> int \<Rightarrow> error + gt3x_result" where
  "parseGT3X u bytes max_samples scale_factor sample_rate =
     (if max_samples < 0 then Inl AllocationError
      else
        let st = parse_records u bytes max_samples sample_rate;
            total_records = g_total_records st;
            M = scaleAndRoundActivity (g_activity st) scale_factor total_records
        in case Range 0 (total_records - 1) of
             Inl e \<Rightarrow> Inl e
           | Inr rows \<Rightarrow>
               (case Range 0 (int N_ACTIVITYCOLUMNS - 1) of
                  Inl e \<Rightarrow> Inl e
                | Inr cols \<Rightarrow>
                    Inr \<lparr>r_samples = map (subrange cols) (subrange rows M),
                         r_time_index = subrange rows (g_timeStamps st),
                         r_start_time = g_start_time st,
                         r_sample_rate = sample_rate\<rparr>))"

section \<open>Properties\<close>

subsection \<open>Expected sample counts\<close>

text \<open>
  Claim C8. For every record header, the sample count the dispatcher expects is
  \<open>\<lfloor>(B*2)/9\<rfloor>\<close> for the type Activity (0x00), \<open>\<lfloor>(B/2)/3\<rfloor>\<close> for the type Activity2
  (0x1A) and 0 for every other type, where \<open>B\<close> is the payload byte count of the header.
\<close>

theorem bytes2samplesize_formula:
  "bytes2samplesize type bytes =
     (if type = 0x00 then (uint bytes * 2) div 9
      else if type = 0x1A then (uint bytes div 2) div 3
      else 0)"
  by (simp add: bytes2samplesize_def RECORDTYPE_ACTIVITY_def RECORDTYPE_ACTIVITY2_def)

subsection \<open>The float parameter codec\<close>

text \<open>
  The two numbers the format description names: the low 24 bits of the value read as a
  two's complement number, and its top byte read as a two's complement number.
\<close>

definition claimed_significand :: "u32 \<Rightarrow> int" where
  "claimed_significand v = sint (ucast v :: 24 word)"

definition claimed_exponent :: "u32 \<Rightarrow> int" where
  "claimed_exponent v = sint (ucast (drop_bit 24 v) :: 8 word)"

text \<open>The finite values of the binary64 format: \<open>m * 2^e\<close> with \<open>|m| < 2^53\<close> and
  \<open>-1074 \<le> e \<le> 971\<close>.\<close>

definition binary64_finite :: "real \<Rightarrow> bool" where
  "binary64_finite x = (\<exists>m e. \<bar>m\<bar> < 2 ^ 53 \<and> - 1074 \<le> e \<and> e \<le> 971 \<and> x = real_of_int m * pow2 e)"

lemma and_exp_ne0: "(0 \<noteq> (w AND 2 ^ n)) = bit w n" for w :: "'a::len word"
  using and_exp_eq_0_iff_not_bit [of w n] by auto

lemma sext24_bits:
  "sint (if bit v 23 then (v AND mask 24) OR NOT (mask 24) else v AND mask 24) = sint (ucast v :: 24 word)"
  for v :: u32
proof (rule bit_eqI)
  fix n :: nat
  consider "n < 23" | "n = 23" | "23 < n" by linarith
  then show "bit (sint (if bit v 23 then (v AND mask 24) OR NOT (mask 24) else v AND mask 24)) n
     = bit (sint (ucast v :: 24 word)) n"
    by cases (auto simp: bit_sint_iff bit_simps)
qed

lemma top_byte: "drop_bit 24 (v AND NOT (mask 24)) = drop_bit 24 v" for v :: u32
  by (rule bit_eqI) (auto simp: bit_simps dest: bit_imp_le_length)

lemma sext8_bits:
  "sint (if bit v 31 then drop_bit 24 v OR NOT (mask 8) else drop_bit 24 v) = sint (ucast (drop_bit 24 v) :: 8 word)"
  for v :: u32
proof (rule bit_eqI)
  fix n :: nat
  consider "n < 7" | "n = 7" | "7 < n" by linarith
  then show "bit (sint (if bit v 31 then drop_bit 24 v OR NOT (mask 8) else drop_bit 24 v)) n
     = bit (sint (ucast (drop_bit 24 v) :: 8 word)) n"
    by cases (auto simp: bit_sint_iff bit_simps dest: bit_imp_le_length)
qed

lemma decode_general:
  assumes "v \<noteq> 0x007FFFFF" "v \<noteq> 0x00800000"
  shows "decodeFloatParameterValue v
           = real_of_int (claimed_significand v) / 2 ^ 23 * pow2 (claimed_exponent v)"
proof -
  have m: "(0x00FFFFFF :: u32) = mask 24" "(0xFF000000 :: u32) = NOT (mask 24)"
    "(0xFFFFFF00 :: u32) = NOT (mask 8)"
    by (simp_all add: mask_eq_exp_minus_1)
  have p: "(0x00800000 :: u32) = 2 ^ 23" "(0x80 :: u32) = 2 ^ 7"
    by simp_all
  have b1: "bit (drop_bit 24 v) 7 = bit v 31"
    by (simp add: bit_simps)
  have b2: "bit (v AND mask 24) 23 = bit v 23"
    by (simp add: bit_simps)
  have e: "sint (if 0 \<noteq> (drop_bit 24 (v AND 0xFF000000) AND 0x80)
                 then drop_bit 24 (v AND 0xFF000000) OR 0xFFFFFF00
                 else drop_bit 24 (v AND 0xFF000000)) = claimed_exponent v"
    unfolding m p and_exp_ne0 top_byte b1 claimed_exponent_def by (rule sext8_bits)
  have s: "sint (if 0 \<noteq> ((v AND 0x00FFFFFF) AND 0x00800000)
                 then (v AND 0x00FFFFFF) OR 0xFF000000 else v AND 0x00FFFFFF)
             = claimed_significand v"
    unfolding m p and_exp_ne0 b2 claimed_significand_def
    by (rule sext24_bits)
  from assms show ?thesis
    unfolding decodeFloatParameterValue_def PARAM_ENCODED_MAXIMUM_def PARAM_ENCODED_MINIMUM_def
      PARAM_EXPONENT_MASK_def PARAM_EXPONENT_OFFSET_def PARAM_SIGNIFICAND_MASK_def
      PARAM_FLOAT_MAXIMUM_def Let_def e s
    by simp
qed

lemma pow2_power_int: "pow2 e = power_int 2 e"
  by (simp add: pow2_def power_int_def field_simps)

lemma pow2_shift: "pow2 e / 2 ^ 23 = pow2 (e - 23)"
  by (simp add: pow2_power_int power_int_diff)

lemma claimed_ranges:
  "- (2 ^ 23) \<le> claimed_significand v" "claimed_significand v < 2 ^ 23"
  "- 128 \<le> claimed_exponent v" "claimed_exponent v < 128"
  using sint_ge [of "ucast v :: 24 word"] sint_lt [of "ucast v :: 24 word"]
    sint_ge [of "ucast (drop_bit 24 v) :: 8 word"] sint_lt [of "ucast (drop_bit 24 v) :: 8 word"]
  by (simp_all add: claimed_significand_def claimed_exponent_def)

lemma dbl_max_finite: "binary64_finite DBL_MAX" "binary64_finite (- DBL_MAX)"
  unfolding binary64_finite_def DBL_MAX_def
  by (rule exI [of _ "2 ^ 53 - 1"], rule exI [of _ 971], simp add: pow2_def,
      rule exI [of _ "- (2 ^ 53 - 1)"], rule exI [of _ 971], simp add: pow2_def)

lemma decode_finite: "binary64_finite (decodeFloatParameterValue v)"
proof (cases "v = 0x007FFFFF \<or> v = 0x00800000")
  case True
  then show ?thesis
    using dbl_max_finite
    by (auto simp: decodeFloatParameterValue_def PARAM_ENCODED_MAXIMUM_def PARAM_ENCODED_MINIMUM_def)
next
  case False
  then have "decodeFloatParameterValue v
      = real_of_int (claimed_significand v) * pow2 (claimed_exponent v - 23)"
    using decode_general [of v] by (simp flip: pow2_shift)
  moreover have "\<bar>claimed_significand v\<bar> < 2 ^ 53"
    using claimed_ranges(1,2) [of v] by simp
  moreover have "- 1074 \<le> claimed_exponent v - 23" "claimed_exponent v - 23 \<le> 971"
    using claimed_ranges(3,4) [of v] by simp_all
  ultimately show ?thesis
    unfolding binary64_finite_def by blast
qed


text \<open>
  Claim C7. The float parameter codec is a total function of its 32-bit input: the input
  0x007FFFFF gives the largest double, the input 0x00800000 gives its negation, and every
  other input gives (sign-extended 24-bit significand / 2^23) * 2^(sign-extended 8-bit
  exponent of the top byte); every result is a finite double. The product is exact in
  binary64, so the real number of the model is the double the source returns.
\<close>

theorem decodeFloatParameterValue_total:
  "decodeFloatParameterValue 0x007FFFFF = DBL_MAX \<and>
   decodeFloatParameterValue 0x00800000 = - DBL_MAX \<and>
   (v \<noteq> 0x007FFFFF \<and> v \<noteq> 0x00800000 \<longrightarrow>
      decodeFloatParameterValue v
        = real_of_int (claimed_significand v) / 2 ^ 23 * pow2 (claimed_exponent v)) \<and>
   binary64_finite (decodeFloatParameterValue v)"
proof -
  have "decodeFloatParameterValue 0x007FFFFF = DBL_MAX"
    by (simp add: decodeFloatParameterValue_def PARAM_ENCODED_MAXIMUM_def)
  moreover have "decodeFloatParameterValue 0x00800000 = - DBL_MAX"
    by (simp add: decodeFloatParameterValue_def PARAM_ENCODED_MAXIMUM_def
        PARAM_ENCODED_MINIMUM_def)
  ultimately show ?thesis
    using decode_general [of v] decode_finite [of v] by blast
qed

theorem decodeFloatParameterValue_total_witness:
  "(0xFEC00000 :: u32) \<noteq> 0x007FFFFF \<and> (0xFEC00000 :: u32) \<noteq> 0x00800000 \<and>
   claimed_significand 0xFEC00000 = - 4194304 \<and> claimed_exponent 0xFEC00000 = - 2 \<and>
   decodeFloatParameterValue 0xFEC00000 = - (1 / 8) \<and>
   binary64_finite (- (1 / 8))"
proof -
  have s: "claimed_significand 0xFEC00000 = - 4194304"
    by (simp add: claimed_significand_def)
  have e: "claimed_exponent 0xFEC00000 = - 2"
    by (simp add: claimed_exponent_def)
  from decodeFloatParameterValue_total [of "0xFEC00000"]
  have f: "decodeFloatParameterValue 0xFEC00000
             = real_of_int (claimed_significand 0xFEC00000) / 2 ^ 23
               * pow2 (claimed_exponent 0xFEC00000)"
    and g: "binary64_finite (decodeFloatParameterValue 0xFEC00000)"
    by simp_all
  have d: "decodeFloatParameterValue 0xFEC00000 = - (1 / 8)"
    unfolding f s e by (simp add: pow2_def)
  from g show ?thesis
    unfolding d by (simp add: s e)
qed


subsection \<open>Rounding to binary64\<close>

text \<open>
  Facts on \<open>fl\<close>: the exponent \<open>binade x\<close> is the one of \<open>x\<close>, the relative error of a
  rounding is at most \<open>2^-53\<close>, and a number with a significand of at most 53 bits is
  not changed.
\<close>

lemma pow2_powr: "pow2 e = 2 powr real_of_int e"
  by (simp add: pow2_def powr_real_of_int field_simps)

lemma pow2_pos [simp]: "0 < pow2 e"
  by (simp add: pow2_powr)

lemma pow2_neq_0 [simp]: "pow2 e \<noteq> 0"
  using pow2_pos [of e] by (simp del: pow2_pos)

lemma abs_pow2 [simp]: "\<bar>pow2 e\<bar> = pow2 e"
  using pow2_pos [of e] by (simp del: pow2_pos)

lemma pow2_not_le_0 [simp]: "\<not> pow2 e \<le> 0"
  using pow2_pos [of e] by (simp del: pow2_pos add: not_le)

lemma pow2_add: "pow2 (a + b) = pow2 a * pow2 b"
  by (simp add: pow2_powr powr_add)

lemma pow2_diff: "pow2 (a - b) = pow2 a / pow2 b"
  by (simp add: pow2_powr powr_diff)

lemma pow2_nat: "0 \<le> k \<Longrightarrow> pow2 k = real_of_int (2 ^ nat k)"
  by (simp add: pow2_def)

lemma rne_close: "\<bar>real_of_int (rne y) - y\<bar> \<le> 1 / 2"
  unfolding rne_def Let_def by (auto; linarith)

lemma rne_of_int [simp]: "rne (real_of_int n) = n"
  by (simp add: rne_def)

lemma pow2_less_iff: "pow2 a < pow2 b \<longleftrightarrow> a < b"
  by (simp add: pow2_powr)

lemma pow2_Suc: "pow2 (e + 1) = 2 * pow2 e"
  by (simp add: pow2_add) (simp add: pow2_def)

lemma ilog2_bounds:
  "1 \<le> n \<Longrightarrow> 0 \<le> ilog2 n \<and> 2 ^ nat (ilog2 n) \<le> n \<and> n < 2 * 2 ^ nat (ilog2 n)"
proof (induction n rule: ilog2.induct)
  case (1 n)
  show ?case
  proof (cases "n < 2")
    case True
    with 1(2) show ?thesis
      by (simp add: ilog2.simps [of n])
  next
    case False
    then have "1 \<le> n div 2"
      by simp
    with 1(1) False
    have k: "0 \<le> ilog2 (n div 2)" and lo: "2 ^ nat (ilog2 (n div 2)) \<le> n div 2"
      and hi: "n div 2 < 2 * 2 ^ nat (ilog2 (n div 2))"
      by simp_all
    have eq: "ilog2 n = 1 + ilog2 (n div 2)"
      using False by (simp add: ilog2.simps [of n])
    have p: "(2 :: int) ^ nat (1 + ilog2 (n div 2)) = 2 * 2 ^ nat (ilog2 (n div 2))"
      using k by (simp add: nat_add_distrib)
    from lo hi show ?thesis
      unfolding eq p using k by (simp; linarith)
  qed
qed

lemma pow2_ilog2:
  assumes "1 \<le> n"
  shows "pow2 (ilog2 n) \<le> real_of_int n" "real_of_int n + 1 \<le> pow2 (ilog2 n + 1)"
proof -
  from ilog2_bounds [OF assms]
  have k: "0 \<le> ilog2 n" and lo: "2 ^ nat (ilog2 n) \<le> n" and hi: "n + 1 \<le> 2 * 2 ^ nat (ilog2 n)"
    by simp_all
  from lo have "real_of_int (2 ^ nat (ilog2 n)) \<le> real_of_int n"
    by (simp only: of_int_le_iff)
  then show "pow2 (ilog2 n) \<le> real_of_int n"
    using k by (simp add: pow2_nat)
  from hi have "real_of_int (n + 1) \<le> real_of_int (2 * 2 ^ nat (ilog2 n))"
    by (simp only: of_int_le_iff)
  then show "real_of_int n + 1 \<le> pow2 (ilog2 n + 1)"
    using k by (simp add: pow2_Suc pow2_nat)
qed

lemma binade_bounds:
  assumes "x \<noteq> 0"
  shows "pow2 (binade x) \<le> \<bar>x\<bar>" "\<bar>x\<bar> < pow2 (binade x + 1)"
proof -
  have "pow2 (binade x) \<le> \<bar>x\<bar> \<and> \<bar>x\<bar> < pow2 (binade x + 1)"
  proof (cases "1 \<le> \<bar>x\<bar>")
    case True
    define n where "n = \<lfloor>\<bar>x\<bar>\<rfloor>"
    have n: "1 \<le> n"
      using True by (simp add: n_def le_floor_iff)
    have "real_of_int n \<le> \<bar>x\<bar>" and "\<bar>x\<bar> < real_of_int n + 1"
      by (simp_all add: n_def)
    with pow2_ilog2 [OF n] have "pow2 (ilog2 n) \<le> \<bar>x\<bar> \<and> \<bar>x\<bar> < pow2 (ilog2 n + 1)"
      by linarith
    then show ?thesis
      using True by (simp add: binade_def n_def)
  next
    case False
    define z where "z = 1 / \<bar>x\<bar>"
    define n where "n = \<lceil>z\<rceil> - 1"
    have x: "0 < \<bar>x\<bar>" "\<bar>x\<bar> < 1"
      using assms False by simp_all
    then have z: "1 < z"
      by (simp add: z_def)
    then have n: "1 \<le> n"
      by (simp add: n_def less_ceiling_iff)
    have nz: "real_of_int n < z" "z \<le> real_of_int n + 1"
      by (simp_all add: n_def) linarith+
    have xz: "\<bar>x\<bar> * z = 1"
      using x by (simp add: z_def)
    define k where "k = ilog2 n"
    from pow2_ilog2 [OF n] nz have kz: "pow2 k < z" "z \<le> pow2 (k + 1)"
      unfolding k_def by linarith+
    have "pow2 (- (k + 1)) * pow2 (k + 1) = 1"
      by (simp add: pow2_add [symmetric]) (simp add: pow2_def)
    moreover have "\<bar>x\<bar> * z \<le> \<bar>x\<bar> * pow2 (k + 1)"
      using kz(2) x(1) by (intro mult_left_mono) simp_all
    ultimately have "pow2 (- (k + 1)) * pow2 (k + 1) \<le> \<bar>x\<bar> * pow2 (k + 1)"
      using xz by simp
    then have lo: "pow2 (- (k + 1)) \<le> \<bar>x\<bar>"
      by (simp del: pow2_Suc)
    have "pow2 (- k) * pow2 k = 1"
      by (simp add: pow2_add [symmetric]) (simp add: pow2_def)
    moreover have "\<bar>x\<bar> * pow2 k < \<bar>x\<bar> * z"
      using kz(1) x(1) by (intro mult_strict_left_mono) simp_all
    ultimately have "\<bar>x\<bar> * pow2 k < pow2 (- k) * pow2 k"
      using xz by simp
    then have hi: "\<bar>x\<bar> < pow2 (- k)"
      by simp
    have "binade x = - (k + 1)"
      using False by (simp add: binade_def k_def n_def z_def)
    with lo hi show ?thesis
      by simp
  qed
  then show "pow2 (binade x) \<le> \<bar>x\<bar>" "\<bar>x\<bar> < pow2 (binade x + 1)"
    by simp_all
qed

lemma binade_unique:
  assumes "pow2 e \<le> \<bar>x\<bar>" "\<bar>x\<bar> < pow2 (e + 1)"
  shows "binade x = e"
proof -
  from assms(1) have "x \<noteq> 0"
    using pow2_pos [of e] by auto
  from binade_bounds [OF this] assms
  have "pow2 (binade x) < pow2 (e + 1)" and "pow2 e < pow2 (binade x + 1)"
    by linarith+
  then have "binade x < e + 1" and "e < binade x + 1"
    by (simp_all only: pow2_less_iff)
  then show ?thesis
    by simp
qed

lemma fl_in_binade:
  assumes "pow2 e \<le> \<bar>x\<bar>" "\<bar>x\<bar> < pow2 (e + 1)"
  shows "fl x = real_of_int (rne (x / pow2 (e - 52))) * pow2 (e - 52)"
proof -
  from assms(1) have "x \<noteq> 0"
    using pow2_pos [of e] by auto
  then show ?thesis
    by (simp add: fl_def binade_unique [OF assms])
qed

lemma fl_error: "\<bar>fl x - x\<bar> \<le> \<bar>x\<bar> / 2 ^ 53"
proof (cases "x = 0")
  case True
  then show ?thesis by (simp add: fl_def)
next
  case False
  define u where "u = pow2 (binade x - 52)"
  have u: "0 < u" by (simp add: u_def)
  have "u = pow2 (binade x) / 2 ^ 52"
    by (simp add: u_def pow2_diff) (simp add: pow2_def)
  with binade_bounds(1) [OF False] have ub: "u \<le> \<bar>x\<bar> / 2 ^ 52"
    by (simp add: divide_right_mono)
  have "fl x - x = (real_of_int (rne (x / u)) - x / u) * u"
    using u False by (simp add: fl_def u_def field_simps)
  then have "\<bar>fl x - x\<bar> = \<bar>real_of_int (rne (x / u)) - x / u\<bar> * u"
    using u by (simp add: abs_mult)
  also have "\<dots> \<le> 1 / 2 * u"
    using rne_close [of "x / u"] u by (intro mult_right_mono) simp_all
  also have "\<dots> \<le> \<bar>x\<bar> / 2 ^ 53"
    using ub by simp
  finally show ?thesis .
qed

lemma fl_nonneg:
  assumes "0 \<le> x"
  shows "0 \<le> fl x"
proof -
  from assms have "\<bar>x\<bar> / 2 ^ 53 \<le> x"
    by (simp add: field_simps)
  with fl_error [of x] show ?thesis by linarith
qed

lemma fl_exact:
  assumes "\<bar>m\<bar> < 2 ^ 53"
  shows "fl (real_of_int m * pow2 k) = real_of_int m * pow2 k"
proof (cases "m = 0")
  case True
  then show ?thesis by (simp add: fl_def)
next
  case False
  define x where "x = real_of_int m * pow2 k"
  have x0: "x \<noteq> 0"
    using False pow2_pos [of k] by (simp add: x_def)
  have "\<bar>x\<bar> = real_of_int \<bar>m\<bar> * pow2 k"
    by (simp add: x_def abs_mult)
  also have "\<dots> < 2 ^ 53 * pow2 k"
    using assms by (intro mult_strict_right_mono) (simp_all add: of_int_less_iff [symmetric, where 'a = real] del: of_int_less_iff)
  also have "\<dots> = pow2 (53 + k)"
    by (simp add: pow2_add) (simp add: pow2_def)
  finally have "pow2 (binade x) < pow2 (53 + k)"
    using binade_bounds(1) [OF x0] by linarith
  then have "binade x < 53 + k"
    by (simp add: pow2_powr)
  then have d: "0 \<le> k - (binade x - 52)" by simp
  have "x / pow2 (binade x - 52) = real_of_int m * pow2 (k - (binade x - 52))"
    by (simp add: x_def pow2_diff)
  also have "\<dots> = real_of_int (m * 2 ^ nat (k - (binade x - 52)))"
    using d by (simp add: pow2_nat)
  finally have "rne (x / pow2 (binade x - 52)) = m * 2 ^ nat (k - (binade x - 52))"
    by (simp only: rne_of_int)
  then have "fl x = real_of_int m * pow2 (k - (binade x - 52)) * pow2 (binade x - 52)"
    using x0 d by (simp add: fl_def pow2_nat)
  also have "\<dots> = x"
    by (simp add: x_def pow2_diff)
  finally show ?thesis
    by (simp add: x_def)
qed

lemma fl_of_int: "\<bar>m\<bar> < 2 ^ 53 \<Longrightarrow> fl (real_of_int m) = real_of_int m"
  using fl_exact [of m 0] by (simp add: pow2_def)

lemma fl_numeral [simp]: "numeral n < (2 :: int) ^ 53 \<Longrightarrow> fl (numeral n) = numeral n"
  using fl_of_int [of "numeral n"] by simp

lemma fl_0 [simp]: "fl 0 = 0" and fl_1 [simp]: "fl 1 = 1"
  using fl_of_int [of 0] fl_of_int [of 1] by simp_all

lemma binary64_finite_fl: "binary64_finite x \<Longrightarrow> fl x = x"
  unfolding binary64_finite_def using fl_exact by blast

text \<open>The value \<open>decodeFloatParameterValue\<close> returns needs no rounding.\<close>

lemma decode_exact: "fl (decodeFloatParameterValue v) = decodeFloatParameterValue v"
  using decode_finite by (rule binary64_finite_fl)

subsection \<open>Time stamps within one record\<close>

text \<open>
  The \<open>double\<close> that \<open>createTimeStamp\<close> passes to \<open>round\<close>, as a function of the
  difference \<open>D = payload_start - start_time\<close>.
\<close>

definition stamp_double :: "int \<Rightarrow> int \<Rightarrow> int \<Rightarrow> real" where
  "stamp_double D i r = fl (fl (real_of_int D + fl (real_of_int i * fl (1 / real_of_int r))) * 100)"

lemma timestamp_units_stamp_double:
  "timestamp_units p i r s = c_round (stamp_double (uint (p - s)) i r)"
  by (simp add: timestamp_units_def stamp_double_def TIME_UNIT_def)

text \<open>
  The four roundings move the result by less than a thousandth of a unit from the exact
  value \<open>100 * (D + i / r)\<close>, as long as \<open>D + i \<le> 2^25\<close>.
\<close>

lemma approx_fl:
  assumes "\<bar>x - x0\<bar> \<le> a"
  shows "\<bar>fl x - x0\<bar> \<le> a + (\<bar>x0\<bar> + a) / 2 ^ 53"
proof -
  from assms have "\<bar>x\<bar> \<le> \<bar>x0\<bar> + a" by linarith
  then have "\<bar>x\<bar> / 2 ^ 53 \<le> (\<bar>x0\<bar> + a) / 2 ^ 53"
    by (simp add: divide_right_mono)
  with fl_error [of x] assms show ?thesis by linarith
qed

lemma approx_fl_coarse:
  assumes "\<bar>x - x0\<bar> \<le> a" and "\<bar>x0\<bar> + a \<le> 2 ^ 33"
  shows "\<bar>fl x - x0\<bar> \<le> a + 1 / 2 ^ 20"
proof -
  have "(\<bar>x0\<bar> + a) / 2 ^ 53 \<le> 2 ^ 33 / 2 ^ 53"
    using assms(2) by (rule divide_right_mono) simp
  also have "\<dots> = (1 :: real) / 2 ^ 20"
    by simp
  finally show ?thesis
    using approx_fl [OF assms(1)] by linarith
qed

lemma stamp_double_close:
  assumes D: "0 \<le> D" and i: "0 \<le> i" and r: "1 \<le> r" and Y: "D + i \<le> 2 ^ 25"
  shows "0 \<le> stamp_double D i r"
    and "\<bar>stamp_double D i r - 100 * (real_of_int D + real_of_int i / real_of_int r)\<bar> \<le> 1 / 1000"
proof -
  define q where "q = real_of_int i / real_of_int r"
  define c where "c = fl (1 / real_of_int r)"
  define d where "d = fl (real_of_int i * c)"
  define e where "e = fl (real_of_int D + d)"
  define f where "f = fl (e * 100)"
  define y where "y = real_of_int D + q"
  have f_def': "f = stamp_double D i r"
    by (simp add: f_def e_def d_def c_def stamp_double_def)
  have rr: "1 \<le> real_of_int r" and ri: "0 \<le> real_of_int i" and rD: "0 \<le> real_of_int D"
    using D i r by simp_all
  have q0: "0 \<le> q"
    using ri rr by (simp add: q_def)
  have "real_of_int i * 1 \<le> real_of_int i * real_of_int r"
    using rr ri by (rule mult_left_mono)
  then have qi: "q \<le> real_of_int i"
    using rr by (simp add: q_def field_simps)
  have "real_of_int (D + i) \<le> real_of_int (2 ^ 25)"
    using Y by (simp only: of_int_le_iff)
  then have "real_of_int D + real_of_int i \<le> 33554432"
    by simp
  with qi rD q0 have qY: "q \<le> 33554432" and y0: "0 \<le> y" and yY: "y \<le> 33554432"
    unfolding y_def by linarith+
  have c0: "0 \<le> c"
    using rr by (simp add: c_def fl_nonneg)
  have d0: "0 \<le> d"
    using ri c0 by (simp add: d_def fl_nonneg)
  have e0: "0 \<le> e"
    using rD d0 by (simp add: e_def fl_nonneg)
  have "\<bar>c - 1 / real_of_int r\<bar> \<le> (1 / real_of_int r) / 2 ^ 53"
    using fl_error [of "1 / real_of_int r"] rr by (simp add: c_def)
  then have "real_of_int i * \<bar>c - 1 / real_of_int r\<bar> \<le> real_of_int i * ((1 / real_of_int r) / 2 ^ 53)"
    using ri by (rule mult_left_mono)
  moreover have "real_of_int i * c - q = real_of_int i * (c - 1 / real_of_int r)"
    by (simp add: q_def right_diff_distrib)
  then have "real_of_int i * \<bar>c - 1 / real_of_int r\<bar> = \<bar>real_of_int i * c - q\<bar>"
    using ri by (simp only: abs_mult abs_of_nonneg)
  ultimately have "\<bar>real_of_int i * c - q\<bar> \<le> q / 2 ^ 53"
    by (simp add: q_def)
  also have "\<dots> \<le> 33554432 / 2 ^ 53"
    using qY by (rule divide_right_mono) simp
  finally have a1: "\<bar>real_of_int i * c - q\<bar> \<le> 1 / 268435456"
    by simp
  have "\<bar>q\<bar> + 1 / 268435456 \<le> 2 ^ 33"
    using q0 qY by simp
  from approx_fl_coarse [OF a1 this] have a2: "\<bar>d - q\<bar> \<le> 1 / 268435456 + 1 / 1048576"
    by (simp add: d_def)
  then have b2: "\<bar>(real_of_int D + d) - y\<bar> \<le> 1 / 268435456 + 1 / 1048576"
    by (simp add: y_def)
  have "\<bar>y\<bar> + (1 / 268435456 + 1 / 1048576) \<le> 2 ^ 33"
    using y0 yY by simp
  from approx_fl_coarse [OF b2 this] have a3: "\<bar>e - y\<bar> \<le> 1 / 268435456 + 1 / 1048576 + 1 / 1048576"
    by (simp add: e_def)
  then have b3: "\<bar>e * 100 - 100 * y\<bar> \<le> 1 / 2000"
    by linarith
  have "\<bar>100 * y\<bar> + 1 / 2000 \<le> 2 ^ 33"
    using y0 yY by simp
  from approx_fl_coarse [OF b3 this] have "\<bar>f - 100 * y\<bar> \<le> 1 / 2000 + 1 / 1048576"
    by (simp add: f_def)
  then have a4: "\<bar>f - 100 * (real_of_int D + q)\<bar> \<le> 1 / 1000"
    unfolding y_def by linarith
  show "0 \<le> stamp_double D i r"
    using e0 by (simp add: f_def' [symmetric] f_def fl_nonneg)
  show "\<bar>stamp_double D i r - 100 * (real_of_int D + real_of_int i / real_of_int r)\<bar> \<le> 1 / 1000"
    using a4 by (simp add: f_def' q_def)
qed


lemma c_round_nonneg: "0 \<le> x \<Longrightarrow> c_round x = \<lfloor>x + 1 / 2\<rfloor>"
  by (simp add: c_round_def)

lemma stamp_double_round:
  assumes D: "0 \<le> D" and i: "0 \<le> i" and r: "1 \<le> r" "r \<le> 100" and Y: "D + i \<le> 2 ^ 25"
  shows "(200 * i + r) mod (2 * r) \<noteq> 0 \<Longrightarrow>
           c_round (stamp_double D i r) = 100 * D + (200 * i + r) div (2 * r)"
    and "c_round (stamp_double D i r) = 100 * D + (200 * i + r) div (2 * r)
         \<or> c_round (stamp_double D i r) = 100 * D + (200 * i + r) div (2 * r) - 1"
proof -
  define f where "f = stamp_double D i r"
  define E where "E = 100 * D + (200 * i + r) div (2 * r)"
  define m where "m = (200 * i + r) mod (2 * r)"
  define \<phi> where "\<phi> = real_of_int m / real_of_int (2 * r)"
  define x where "x = 100 * (real_of_int D + real_of_int i / real_of_int r)"
  have f0: "0 \<le> f" and fx: "\<bar>f - x\<bar> \<le> 1 / 1000"
    using stamp_double_close [OF D i r(1) Y] by (simp_all add: f_def x_def)
  have rr: "0 < real_of_int r"
    using r by simp
  have m0: "0 \<le> m" and m1: "m \<le> 2 * r - 1"
    using r pos_mod_bound [of "2 * r" "200 * i + r"] by (simp_all add: m_def)
  have "200 * i + r = 2 * r * ((200 * i + r) div (2 * r)) + m"
    by (simp add: m_def)
  then have "real_of_int (200 * i + r) = real_of_int (2 * r * ((200 * i + r) div (2 * r)) + m)"
    by (simp only:)
  then have "200 * real_of_int i + real_of_int r
             = 2 * real_of_int r * real_of_int ((200 * i + r) div (2 * r)) + real_of_int m"
    by simp
  then have "(200 * real_of_int i + real_of_int r) / (2 * real_of_int r)
             = real_of_int ((200 * i + r) div (2 * r)) + \<phi>"
    using rr by (simp add: \<phi>_def field_simps)
  moreover have "x + 1 / 2 = 100 * real_of_int D + (200 * real_of_int i + real_of_int r) / (2 * real_of_int r)"
    using rr by (simp add: x_def field_simps)
  ultimately have xE: "x + 1 / 2 = real_of_int E + \<phi>"
    by (simp add: E_def)
  have \<phi>0: "0 \<le> \<phi>"
    using m0 rr by (simp add: \<phi>_def)
  have "real_of_int m / real_of_int (2 * r) \<le> real_of_int (2 * r - 1) / real_of_int (2 * r)"
    using m1 rr by (intro divide_right_mono) simp_all
  also have "\<dots> = 1 - 1 / (2 * real_of_int r)"
    using rr by (simp add: field_simps)
  also have "\<dots> \<le> 1 - 1 / 200"
    using r rr by (simp add: field_simps)
  finally have \<phi>1: "\<phi> \<le> 1 - 1 / 200"
    by (simp add: \<phi>_def)
  have cr: "c_round f = \<lfloor>f + 1 / 2\<rfloor>"
    using f0 by (rule c_round_nonneg)
  have low: "m \<noteq> 0 \<Longrightarrow> 1 / 200 \<le> \<phi>"
  proof -
    assume "m \<noteq> 0"
    with m0 have "1 \<le> real_of_int m"
      by simp
    moreover have "real_of_int (2 * r) \<le> 200"
      using r by simp
    ultimately have "1 / 200 \<le> real_of_int m / real_of_int (2 * r)"
      using rr by (intro frac_le) simp_all
    then show ?thesis
      by (simp add: \<phi>_def)
  qed
  have exact: "m \<noteq> 0 \<Longrightarrow> c_round f = E"
  proof -
    assume "m \<noteq> 0"
    from low [OF this] \<phi>1 xE fx
    have "real_of_int E \<le> f + 1 / 2" and "f + 1 / 2 < real_of_int E + 1"
      by linarith+
    then have "\<lfloor>f + 1 / 2\<rfloor> = E"
      by (rule floor_unique)
    with cr show ?thesis
      by simp
  qed
  then show "(200 * i + r) mod (2 * r) \<noteq> 0 \<Longrightarrow>
           c_round (stamp_double D i r) = 100 * D + (200 * i + r) div (2 * r)"
    by (simp add: m_def f_def E_def)
  have "c_round f = E \<or> c_round f = E - 1"
  proof (cases "real_of_int E \<le> f + 1 / 2")
    case True
    moreover from \<phi>1 xE fx have "f + 1 / 2 < real_of_int E + 1"
      by linarith
    ultimately have "\<lfloor>f + 1 / 2\<rfloor> = E"
      by (rule floor_unique)
    with cr show ?thesis
      by simp
  next
    case False
    then have "f + 1 / 2 < real_of_int (E - 1) + 1"
      by simp
    moreover have "real_of_int (E - 1) = real_of_int E - 1"
      by simp
    with \<phi>0 xE fx have "real_of_int (E - 1) \<le> f + 1 / 2"
      by linarith
    ultimately have "\<lfloor>f + 1 / 2\<rfloor> = E - 1"
      by (intro floor_unique)
    with cr show ?thesis
      by simp
  qed
  then show "c_round (stamp_double D i r) = 100 * D + (200 * i + r) div (2 * r)
         \<or> c_round (stamp_double D i r) = 100 * D + (200 * i + r) div (2 * r) - 1"
    by (simp add: f_def E_def)
qed

lemma div_step:
  fixes a b c :: int
  assumes "0 < b"
  shows "(a + c) div b - a div b \<in> {c div b, c div b + 1}"
proof -
  have "(a + c) div b = a div b + c div b + (a mod b + c mod b) div b"
    by (rule div_add1_eq)
  moreover have "0 \<le> a mod b" "0 \<le> c mod b" "a mod b < b" "c mod b < b"
    using assms by simp_all
  then have "0 \<le> a mod b + c mod b" "a mod b + c mod b < 2 * b"
    by linarith+
  then have "(a mod b + c mod b) div b \<in> {0, 1}"
    using assms
    by (cases "a mod b + c mod b < b") (simp_all add: div_pos_pos_trivial div_pos_geq)
  ultimately show ?thesis by auto
qed

lemma no_tie_30: "(200 * i + 30) mod 60 \<noteq> (0 :: int)"
proof
  assume "(200 * i + 30) mod 60 = 0"
  then have "60 dvd 200 * i + 30"
    by (simp add: dvd_eq_mod_eq_0)
  then have "20 dvd 200 * i + 30"
    by (rule dvd_trans [rotated]) simp
  moreover have "(20 :: int) dvd 200 * i"
    by simp
  ultimately have "(20 :: int) dvd 30"
    by (simp add: dvd_add_right_iff)
  then show False
    by simp
qed

lemma no_tie_100: "(200 * i + 100) mod 200 \<noteq> (0 :: int)"
  by simp

lemma stamp_spacing_30:
  assumes "0 \<le> D" "0 \<le> i" "D + (i + 1) \<le> 2 ^ 25"
  shows "c_round (stamp_double D (i + 1) 30) - c_round (stamp_double D i 30) \<in> {3, 4}"
proof -
  have a: "c_round (stamp_double D i 30) = 100 * D + (200 * i + 30) div 60"
    using stamp_double_round(1) [of D i 30] assms no_tie_30 [of i] by simp
  have b: "c_round (stamp_double D (i + 1) 30) = 100 * D + (200 * (i + 1) + 30) div 60"
    using stamp_double_round(1) [of D "i + 1" 30] assms no_tie_30 [of "i + 1"] by simp
  show ?thesis
    unfolding a b using div_step [of 60 "200 * i + 30" 200] by (simp add: algebra_simps)
qed

lemma stamp_spacing_100:
  assumes "0 \<le> D" "0 \<le> i" "D + (i + 1) \<le> 2 ^ 25"
  shows "c_round (stamp_double D (i + 1) 100) - c_round (stamp_double D i 100) = 1"
proof -
  have a: "c_round (stamp_double D i 100) = 100 * D + (200 * i + 100) div 200"
    using stamp_double_round(1) [of D i 100] assms by simp
  have b: "c_round (stamp_double D (i + 1) 100) = 100 * D + (200 * (i + 1) + 100) div 200"
    using stamp_double_round(1) [of D "i + 1" 100] assms by simp
  have "(200 * (i + 1) + 100) div 200 = (200 * i + 100) div 200 + 1"
    by simp
  then show ?thesis
    unfolding a b by simp
qed

lemma ties_40:
  "(40 + 80 * k) mod 80 = (40 :: int)" "(40 + 80 * k) div 80 = k" "(80 * k) div 80 = (k :: int)"
  by simp_all

lemma stamp_spacing_40:
  assumes "0 \<le> D" "0 \<le> i" "D + (i + 1) \<le> 2 ^ 25"
  shows "c_round (stamp_double D (i + 1) 40) - c_round (stamp_double D i 40) \<in> {2, 3}"
proof (cases "even i")
  case True
  then obtain m where m: "i = 2 * m"
    by (auto elim: evenE)
  have e: "200 * i + 40 = 40 + 80 * (5 * m)" "200 * (i + 1) + 40 = 80 * (5 * m + 3)"
    by (simp_all add: m)
  have "(200 * i + 40) mod 80 \<noteq> 0" and a': "(200 * i + 40) div 80 = 5 * m"
    and b': "(200 * (i + 1) + 40) div 80 = 5 * m + 3"
    by (simp_all only: e ties_40)
  then have a: "c_round (stamp_double D i 40) = 100 * D + 5 * m"
    using stamp_double_round(1) [of D i 40] assms by simp
  have "c_round (stamp_double D (i + 1) 40) = 100 * D + (5 * m + 3)
         \<or> c_round (stamp_double D (i + 1) 40) = 100 * D + (5 * m + 3) - 1"
    using stamp_double_round(2) [of D "i + 1" 40] assms b' by simp
  then show ?thesis
    unfolding a by auto
next
  case False
  then obtain m where m: "i = 2 * m + 1"
    by (auto elim: oddE)
  have e: "200 * i + 40 = 80 * (5 * m + 3)" "200 * (i + 1) + 40 = 40 + 80 * (5 * m + 5)"
    by (simp_all add: m)
  have "(200 * (i + 1) + 40) mod 80 \<noteq> 0" and b': "(200 * (i + 1) + 40) div 80 = 5 * m + 5"
    and a': "(200 * i + 40) div 80 = 5 * m + 3"
    by (simp_all only: e ties_40)
  then have b: "c_round (stamp_double D (i + 1) 40) = 100 * D + (5 * m + 5)"
    using stamp_double_round(1) [of D "i + 1" 40] assms by simp
  have "c_round (stamp_double D i 40) = 100 * D + (5 * m + 3)
         \<or> c_round (stamp_double D i 40) = 100 * D + (5 * m + 3) - 1"
    using stamp_double_round(2) [of D i 40] assms a' by simp
  then show ?thesis
    unfolding b by auto
qed

lemma stamp_range:
  assumes "0 \<le> D" "0 \<le> i" "1 \<le> r" "r \<le> 100" "D + i \<le> 2 ^ 25"
  shows "0 \<le> c_round (stamp_double D i r)" "c_round (stamp_double D i r) \<le> 100 * (D + i)"
proof -
  define q where "q = (200 * i + r) div (2 * r)"
  have "0 \<le> stamp_double D i r"
    using assms by (intro stamp_double_close(1)) simp_all
  then show "0 \<le> c_round (stamp_double D i r)"
    by (simp add: c_round_def)
  have "200 * i * 1 \<le> 200 * i * r"
    using assms by (intro mult_left_mono) simp_all
  then have "200 * i + r < 2 * r * (100 * i + 1)"
    using assms by (simp add: algebra_simps)
  moreover have "200 * i + r = 2 * r * q + (200 * i + r) mod (2 * r)"
    by (simp add: q_def)
  moreover have "0 \<le> (200 * i + r) mod (2 * r)"
    using assms by simp
  ultimately have "2 * r * q < 2 * r * (100 * i + 1)"
    by linarith
  then have "q < 100 * i + 1"
    using assms by (simp only: mult_less_cancel_left_pos) 
  with stamp_double_round(2) [OF assms]
  show "c_round (stamp_double D i r) \<le> 100 * (D + i)"
    unfolding q_def by auto
qed

text \<open>
  The time stamp \<open>createTimeStamp\<close> returns and the \<open>int\<close> stored in \<open>timeStamps\<close>
  are the rounded value itself while it is below \<open>2^31\<close>.
\<close>

lemma createTimeStamp_stored:
  assumes "0 \<le> i" "1 \<le> r" "r \<le> 100" "100 * (uint (p - s) + i) < 2 ^ 31"
  shows "sint (createTimeStamp p i r s) = timestamp_units p i r s"
    and "uint (createTimeStamp p i r s) = timestamp_units p i r s"
proof -
  define D where "D = uint (p - s)"
  have D: "0 \<le> D"
    by (simp add: D_def)
  from assms(4) have "D + i \<le> 2 ^ 25"
    by (simp add: D_def)
  from stamp_range [OF D assms(1-3) this] assms(4)
  have "0 \<le> timestamp_units p i r s" and "timestamp_units p i r s < 2 ^ 31"
    by (simp_all add: timestamp_units_stamp_double D_def)
  then show "sint (createTimeStamp p i r s) = timestamp_units p i r s"
    and "uint (createTimeStamp p i r s) = timestamp_units p i r s"
    by (simp_all add: createTimeStamp_def sint_sbintrunc' signed_take_bit_int_eq_self
        uint_word_of_int_eq take_bit_int_eq_self)
qed

text \<open>
  Where the exact value is not halfway between two integers, the time stamp is the
  rounded exact value.
\<close>

lemma timestamp_units_value:
  assumes "0 \<le> i" "1 \<le> r" "r \<le> 100" "uint (p - s) + i \<le> 2 ^ 25"
    and "(200 * i + r) mod (2 * r) \<noteq> 0"
  shows "timestamp_units p i r s = 100 * uint (p - s) + (200 * i + r) div (2 * r)"
  unfolding timestamp_units_stamp_double
  using assms by (intro stamp_double_round(1)) simp_all

text \<open>
  At 40 Hz every odd sample is a halfway case and the roundings decide: for the sample 17
  of a record that starts 2 s after the start time, the exact value is 242.5 and the
  double is 242.49999999999997, so that the time stamp is 242 and not 243.
\<close>

lemma halfway_case:
  "stamp_double 2 17 40 = 8532210231541759 / 2 ^ 45"
  "sint (createTimeStamp 2 17 40 0) = 242"
  "c_round ((2 + 17 * (1 / 40)) * 100) = 243"
  by code_simp+

text \<open>
  The stored time stamp is a 32-bit signed integer: 248 days after the start time the
  next sample at 100 Hz gets a smaller time stamp than the one before.
\<close>

lemma stored_stamp_wraps:
  "sint (createTimeStamp 21474836 47 100 0) = 2147483647"
  "sint (createTimeStamp 21474836 48 100 0) = - 2147483648"
  by code_simp+

text \<open>
  Claim C2, as amended. Within one activity record the time stamps that
  \<open>createTimeStamp\<close> returns for consecutive sample indices \<open>i \<ge> 0\<close>, as they are stored in
  the vector of time stamps, never decrease, for every sample rate in \<open>{30, 40, 100}\<close>
  and as long as the time stamps stay below \<open>2^31\<close>
  (\<open>100 * (payload_start - start_time + i + 1) < 2^31\<close>, about 248 days of recording).
  Two consecutive ones differ by exactly \<open>round(100 / sample_rate) = 1\<close> at 100 Hz, by 3
  or 4 at 30 Hz and by 2 or 3 at 40 Hz: each time stamp is rounded on its own, so at 30 Hz
  and 40 Hz the spacing is not constant. The statement is about the value computed in
  binary64, converted to \<open>uint32_t\<close> and stored as \<open>int\<close>; in that range the value
  returned and the value stored are the same number.
\<close>

theorem timestamp_spacing:
  assumes "0 \<le> i" "r \<in> {30, 40, 100}" "100 * (uint (p - s) + i + 1) < 2 ^ 31"
  shows "sint (createTimeStamp p i r s) \<le> sint (createTimeStamp p (i + 1) r s) \<and>
         (r = 100 \<longrightarrow> sint (createTimeStamp p (i + 1) r s) - sint (createTimeStamp p i r s) = 1) \<and>
         (r = 30 \<longrightarrow> sint (createTimeStamp p (i + 1) r s) - sint (createTimeStamp p i r s) \<in> {3, 4}) \<and>
         (r = 40 \<longrightarrow> sint (createTimeStamp p (i + 1) r s) - sint (createTimeStamp p i r s) \<in> {2, 3}) \<and>
         uint (createTimeStamp p i r s) = sint (createTimeStamp p i r s) \<and>
         uint (createTimeStamp p (i + 1) r s) = sint (createTimeStamp p (i + 1) r s)"
proof -
  define D where "D = uint (p - s)"
  have D: "0 \<le> D"
    by (simp add: D_def)
  from assms(3) have Y: "D + (i + 1) \<le> 2 ^ 25"
    by (simp add: D_def)
  from assms have r: "1 \<le> r" "r \<le> 100"
    by auto
  have u: "uint (createTimeStamp p i r s) = sint (createTimeStamp p i r s)"
    "uint (createTimeStamp p (i + 1) r s) = sint (createTimeStamp p (i + 1) r s)"
    using assms(1,3) r by (simp_all add: createTimeStamp_stored)
  have a: "sint (createTimeStamp p i r s) = c_round (stamp_double D i r)"
    using assms(1,3) r
    by (subst createTimeStamp_stored) (simp_all add: timestamp_units_stamp_double D_def)
  have b: "sint (createTimeStamp p (i + 1) r s) = c_round (stamp_double D (i + 1) r)"
    using assms(1,3) r
    by (subst createTimeStamp_stored) (simp_all add: timestamp_units_stamp_double D_def)
  from assms(2) consider "r = 30" | "r = 40" | "r = 100"
    by auto
  then show ?thesis
  proof cases
    case 1
    then show ?thesis
      unfolding u a b using stamp_spacing_30 [OF D assms(1) Y] by auto
  next
    case 2
    then show ?thesis
      unfolding u a b using stamp_spacing_40 [OF D assms(1) Y] by auto
  next
    case 3
    then show ?thesis
      unfolding u a b using stamp_spacing_100 [OF D assms(1) Y] by auto
  qed
qed

lemma stamps_30:
  "sint (createTimeStamp 1000 1 30 1000) = 3" "sint (createTimeStamp 1000 2 30 1000) = 7"
  by code_simp+

theorem timestamp_spacing_witness:
  "(0::int) \<le> 1 \<and> (30::int) \<in> {30, 40, 100} \<and>
   100 * (uint (1000 - 1000 :: u32) + 1 + 1) < 2 ^ 31 \<and>
   sint (createTimeStamp 1000 1 30 1000) = 3 \<and> sint (createTimeStamp 1000 2 30 1000) = 7 \<and>
   sint (createTimeStamp 1000 1 30 1000) \<le> sint (createTimeStamp 1000 (1 + 1) 30 1000) \<and>
   sint (createTimeStamp 1000 (1 + 1) 30 1000) - sint (createTimeStamp 1000 1 30 1000) \<in> {3, 4}"
  using timestamp_spacing [of 1 30 1000 1000] by (simp add: stamps_30)

text \<open>
  Claim C2 as stated fails at 30 Hz: the samples 1 and 2 of a record get the time stamps
  3 and 7, four hundredths of a second apart, and \<open>round(100 / 30) = 3\<close>.
\<close>

theorem timestamp_spacing_counterexample:
  "sint (createTimeStamp 1000 2 30 1000) - sint (createTimeStamp 1000 1 30 1000)
     \<noteq> c_round (fl (100 / real_of_int 30))"
  by code_simp


section \<open>Runs of the parser on given files\<close>

text \<open>
  The files below are written out byte by byte; every record is the separator 30, the
  header (type, four bytes of time, two bytes of size, least significant byte first), the
  payload and one checksum byte. The variables the source leaves uninitialised are
  arbitrary (\<open>u\<close>) unless a statement fixes them.
\<close>

text \<open>A Parameters record with the one entry (address 1, key 12, value 1000), then an
  Activity2 record stamped 1000 with two samples (100, 200, 300).\<close>

definition end_to_end_stream :: "u8 list" where
  "end_to_end_stream =
     [30, 0x15, 0xE8, 0x03, 0, 0, 8, 0,
        1, 0, 12, 0, 0xE8, 0x03, 0, 0,
      0,
      30, 0x1A, 0xE8, 0x03, 0, 0, 12, 0,
        100, 0, 200, 0, 0x2C, 0x01,
        100, 0, 200, 0, 0x2C, 0x01,
      0]"

text \<open>Uninitialised variables that all hold 0.\<close>

definition zero_init :: indeterminate where
  "zero_init = \<lparr>u_type = 0, u_size = 0, u_payload_start = 0, u_start_time = 0,
                 u_address = 0, u_key = 0, u_value = 0, u_item = 0\<rparr>"

text \<open>An Activity2 record stamped 2 with the sample (100, 200, 300), and no Parameters
  record.\<close>

definition no_start_time_stream :: "u8 list" where
  "no_start_time_stream =
     [30, 0x1A, 2, 0, 0, 0, 6, 0,
        100, 0, 200, 0, 0x2C, 0x01,
      0]"

text \<open>An Activity2 record that announces 12 bytes (two samples) in a file that ends after
  the first sample, and an Activity record that announces 9 bytes (two samples) in a file
  that ends after 3 of them.\<close>

definition truncated_activity2_stream :: "u8 list" where
  "truncated_activity2_stream =
     [30, 0x1A, 0xE8, 0x03, 0, 0, 12, 0,
        100, 0, 200, 0, 0x2C, 0x01]"

definition truncated_activity_stream :: "u8 list" where
  "truncated_activity_stream =
     [30, 0x00, 0xE8, 0x03, 0, 0, 9, 0,
        0x00, 0x1F, 0xFF]"

text \<open>An Activity2 record of two samples, for a run with \<open>max_samples = 1\<close>.\<close>

definition over_capacity_stream :: "u8 list" where
  "over_capacity_stream =
     [30, 0x1A, 0xE8, 0x03, 0, 0, 12, 0,
        100, 0, 200, 0, 0x2C, 0x01,
        100, 0, 200, 0, 0x2C, 0x01,
      0]"

subsection \<open>Evaluation\<close>

text \<open>A run is evaluated turn by turn: each \<open>turn\<close> unfolds the loop once, and the
  simplifier computes the turn from the definitions of the model.\<close>

lemmas model_defs =
  frame_step_def dispatch_def ParseHeader_def ParseParameters_def ParseActivity2_def ParseActivity_def
  act2_row_def act2_cell_def act1_row_def act1_value_def param_entry_def
  read_word_def stream_read_def stream_get_def stream_seekg_cur_def le_bytes_def
  bytes2samplesize_def set_cell_def set_stamp_def
  RECORD_SEPARATOR_def RECORDTYPE_ACTIVITY_def RECORDTYPE_ACTIVITY2_def RECORDTYPE_PARAMETERS_def
  N_ACTIVITYCOLUMNS_def ios_cur_def
  initial_state_def open_stream_def new_matrix_def Let_def

lemma stamp_values:
  "createTimeStamp 1000 0 100 1000 = 0" "createTimeStamp 1000 1 100 1000 = 1"
  "createTimeStamp 2 0 100 0 = 200" "createTimeStamp 2 0 100 1 = 100"
  by code_simp+

lemmas result_defs =
  parseGT3X_def scaleAndRoundActivity_def scale_cell_def set_cell_def cell_def c_round_def
  Range_def subrange_def N_ACTIVITYCOLUMNS_def SIGNIF_DIGITS_def Let_def

lemmas turn = parse_loop.simps [THEN trans]

lemma upt_small: "[0..<2] = [0, 1]" "[0..<3] = [0, 1, 2]" "[0..<Suc 0] = [0]" "[0..<1] = [0]"
  by (simp_all add: numeral_2_eq_2 numeral_3_eq_3)

lemma replicate_small:
  "replicate 3 x = [x, x, x]"
  "replicate 8 x = [x, x, x, x, x, x, x, x]"
  "replicate 9 x = x # replicate 8 x"
  "replicate 10 x = x # replicate 9 x"
  by (simp_all add: numeral_eq_Suc)

lemma end_to_end_records:
  "parse_records u end_to_end_stream 10 100 =
     \<lparr>g_stream = \<lparr>sdata = end_to_end_stream, spos = 38, sfail = True\<rparr>,
      g_activity = [[100, 200, 300], [100, 200, 300]] @ replicate 8 [0, 0, 0],
      g_timeStamps = [0, 1] @ replicate 8 0,
      g_type = 0x1A, g_size = 12, g_payload_start = 1000, g_start_time = 1000,
      g_total_records = 2, g_warnings = []\<rparr>"
  unfolding parse_records_def
  apply (rule turn, simp add: model_defs end_to_end_stream_def upt_small)
  apply (rule turn, simp add: model_defs stamp_values end_to_end_stream_def upt_small)
  apply (rule turn, simp add: model_defs end_to_end_stream_def upt_small replicate_small)
  done

lemma no_start_time_records:
  "parse_records u no_start_time_stream 10 100 =
     \<lparr>g_stream = \<lparr>sdata = no_start_time_stream, spos = 15, sfail = True\<rparr>,
      g_activity = [[100, 200, 300]] @ replicate 9 [0, 0, 0],
      g_timeStamps = [sint (createTimeStamp 2 0 100 (u_start_time u))] @ replicate 9 0,
      g_type = 0x1A, g_size = 6, g_payload_start = 2, g_start_time = u_start_time u,
      g_total_records = 1, g_warnings = []\<rparr>"
  unfolding parse_records_def
  apply (rule turn, simp add: model_defs no_start_time_stream_def upt_small)
  apply (rule turn, simp add: model_defs no_start_time_stream_def upt_small replicate_small)
  done

lemma truncated_activity2_records:
  "parse_records u truncated_activity2_stream 10 100 =
     \<lparr>g_stream = \<lparr>sdata = truncated_activity2_stream, spos = 14, sfail = True\<rparr>,
      g_activity = [[100, 200, 300], [300, 300, 300]] @ replicate 8 [0, 0, 0],
      g_timeStamps = [sint (createTimeStamp 1000 0 100 (u_start_time u)),
                      sint (createTimeStamp 1000 1 100 (u_start_time u))] @ replicate 8 0,
      g_type = 0x1A, g_size = 12, g_payload_start = 1000, g_start_time = u_start_time u,
      g_total_records = 2, g_warnings = []\<rparr>"
  unfolding parse_records_def
  apply (rule turn, simp add: model_defs truncated_activity2_stream_def upt_small)
  apply (rule turn, simp add: replicate_small)
  done

lemma truncated_activity_fields:
  "even_field 0 31 = 1" "odd_field 31 255 = 0xFFF" "even_field EOF EOF = 0xFFF"
  "sign_extend12 1 = 1" "sign_extend12 0xFFF = - 1"
  by (simp_all add: even_field_def odd_field_def EOF_def sign_extend12_def)

lemma truncated_activity_records:
  "parse_records u truncated_activity_stream 10 100 =
     \<lparr>g_stream = \<lparr>sdata = truncated_activity_stream, spos = 11, sfail = True\<rparr>,
      g_activity = [[1, - 1, - 1]] @ replicate 9 [0, 0, 0],
      g_timeStamps = [sint (createTimeStamp 1000 0 100 (u_start_time u)),
                      sint (createTimeStamp 1000 1 100 (u_start_time u))] @ replicate 8 0,
      g_type = 0x00, g_size = 9, g_payload_start = 1000, g_start_time = u_start_time u,
      g_total_records = 2, g_warnings = []\<rparr>"
  unfolding parse_records_def
  apply (rule turn, simp add: model_defs truncated_activity_stream_def upt_small
      truncated_activity_fields)
  apply (rule turn, simp add: replicate_small)
  done

lemma over_capacity_records:
  "parse_records u over_capacity_stream 1 100 =
     \<lparr>g_stream = \<lparr>sdata = over_capacity_stream, spos = 8, sfail = False\<rparr>,
      g_activity = [[0, 0, 0]], g_timeStamps = [0],
      g_type = 0x1A, g_size = 12, g_payload_start = 1000, g_start_time = u_start_time u,
      g_total_records = 0, g_warnings = [MaxSamplesReached]\<rparr>"
  unfolding parse_records_def
  apply (rule turn, simp add: model_defs over_capacity_stream_def upt_small replicate_small)
  done

subsection \<open>The end-to-end scenario\<close>

text \<open>
  Claim C3, as amended. For the file of one Parameters record with the entry (address 1,
  key 12, value 1000) followed by one Activity2 record (payload_start 1000, two samples
  X=100, Y=200, Z=300), with sample_rate 100, scale_factor 100 and max_samples 10, the
  decoder ends with total_records = 2 and returns the time stamps [0, 1] (hundredths of a
  second: the second sample is 1/100 s after the first) and the rows [1.0, 2.0, 3.0].
  The quotients 100/100, 200/100 and 300/100 and their products with 1000 are exact in
  binary64.
\<close>

theorem end_to_end:
  "g_total_records (parse_records u end_to_end_stream 10 100) = 2 \<and>
   parseGT3X u end_to_end_stream 10 100 100 =
     Inr \<lparr>r_samples = [[1, 2, 3], [1, 2, 3]], r_time_index = [0, 1],
          r_start_time = 1000, r_sample_rate = 100\<rparr>"
  by (simp add: end_to_end_records result_defs upt_small)

text \<open>Claim C3 as stated gives the time stamps [0, 100]; the run returns [0, 1].\<close>

theorem end_to_end_counterexample:
  "(case parseGT3X zero_init end_to_end_stream 10 100 100 of
      Inl e \<Rightarrow> False
    | Inr r \<Rightarrow> r_time_index r = [0, 1] \<and> r_time_index r \<noteq> [0, 100])"
  by (simp add: end_to_end_records result_defs upt_small)


subsection \<open>A file without a start time\<close>

text \<open>
  Claim C10. When the file has no parameter entry with address 1 and key 12, \<open>start_time\<close>
  is read without ever being assigned: for the file \<open>no_start_time_stream\<close> the returned
  \<open>start_time\<close> is the value the variable held at its declaration and the time stamp is
  computed from it, and two runs that differ only in that value (0 and 1) return different
  results.
\<close>

theorem start_time_indeterminate:
  "parseGT3X u no_start_time_stream 10 1 100 =
     Inr \<lparr>r_samples = [[100, 200, 300]],
          r_time_index = [sint (createTimeStamp 2 0 100 (u_start_time u))],
          r_start_time = u_start_time u, r_sample_rate = 100\<rparr> \<and>
   parseGT3X (zero_init\<lparr>u_start_time := 0\<rparr>) no_start_time_stream 10 1 100 =
     Inr \<lparr>r_samples = [[100, 200, 300]], r_time_index = [200],
          r_start_time = 0, r_sample_rate = 100\<rparr> \<and>
   parseGT3X (zero_init\<lparr>u_start_time := 1\<rparr>) no_start_time_stream 10 1 100 =
     Inr \<lparr>r_samples = [[100, 200, 300]], r_time_index = [100],
          r_start_time = 1, r_sample_rate = 100\<rparr> \<and>
   parseGT3X (zero_init\<lparr>u_start_time := 0\<rparr>) no_start_time_stream 10 1 100
     \<noteq> parseGT3X (zero_init\<lparr>u_start_time := 1\<rparr>) no_start_time_stream 10 1 100"
  by (simp add: no_start_time_records result_defs upt_small zero_init_def stamp_values)

subsection \<open>A file that ends inside an activity record\<close>

text \<open>
  Claim C6 does not hold of the source. \<open>ParseActivity2\<close> never tests the stream: when the
  file ends after the first of two announced samples, the second row is written all the
  same, from the last value read (300, 300, 300). \<open>ParseActivity\<close> tests the stream in its
  odd branch only, and its \<open>break\<close> leaves the inner loop only: when the file ends
  before the third value of a row, that cell is written from the two \<open>EOF\<close> values
  (- 1). Both add the announced sample count to \<open>total_records\<close>.
\<close>

theorem truncated_record_is_filled:
  "g_total_records (parse_records u truncated_activity2_stream 10 100) = 2 \<and>
   take 3 (g_activity (parse_records u truncated_activity2_stream 10 100))
     = [[100, 200, 300], [300, 300, 300], [0, 0, 0]] \<and>
   g_total_records (parse_records u truncated_activity_stream 10 100) = 2 \<and>
   take 3 (g_activity (parse_records u truncated_activity_stream 10 100))
     = [[1, - 1, - 1], [0, 0, 0], [0, 0, 0]]"
  by (simp add: truncated_activity2_records truncated_activity_records numeral_eq_Suc)

subsection \<open>A run that decodes no sample\<close>

text \<open>
  Claim C1 does not hold of the source for \<open>total_records = 0\<close>. With \<open>max_samples = 1\<close>
  and a record of two samples the loop stops before writing (the matrix is still zero,
  the count is 0, the warning is recorded), but \<open>Range(0, total_records - 1)\<close> is
  \<open>Range(0, - 1)\<close> and throws: no table is returned. The same happens for an empty
  file.
\<close>

theorem no_rows_raises:
  "g_total_records (parse_records u over_capacity_stream 1 100) = 0 \<and>
   g_activity (parse_records u over_capacity_stream 1 100) = [[0, 0, 0]] \<and>
   g_warnings (parse_records u over_capacity_stream 1 100) = [MaxSamplesReached] \<and>
   parseGT3X u over_capacity_stream 1 scale_factor 100 = Inl RangeError \<and>
   parseGT3X u [] 1 scale_factor 100 = Inl RangeError"
proof -
  have "parse_records u [] 1 100 = initial_state u [] 1\<lparr>g_stream := \<lparr>sdata = [], spos = 0, sfail = True\<rparr>\<rparr>"
    unfolding parse_records_def
    by (rule turn) (simp add: model_defs)
  then have "parseGT3X u [] 1 scale_factor 100 = Inl RangeError"
    by (simp add: parseGT3X_def Range_def initial_state_def)
  then show ?thesis
    by (simp add: over_capacity_records parseGT3X_def Range_def)
qed

subsection \<open>A byte that is not a record separator\<close>

text \<open>
  Claim C5 does not hold of the source: the warning is printed under the condition
  \<open>std::ios::cur > 1\<close>, which compares a constant of the library and is false. For a file
  of two bytes that are not separators the loop reads both and changes nothing but the
  stream; no warning is recorded.
\<close>

theorem desync_is_silent:
  "parse_records u [0x07, 0x08] 10 100 =
     initial_state u [0x07, 0x08] 10\<lparr>g_stream := \<lparr>sdata = [0x07, 0x08], spos = 2, sfail = True\<rparr>\<rparr> \<and>
   g_warnings (parse_records u [0x07, 0x08] 10 100) = []"
proof -
  have "parse_records u [0x07, 0x08] 10 100 =
     initial_state u [0x07, 0x08] 10\<lparr>g_stream := \<lparr>sdata = [0x07, 0x08], spos = 2, sfail = True\<rparr>\<rparr>"
    unfolding parse_records_def
    apply (rule turn, simp add: model_defs)
    apply (rule turn, simp add: model_defs)
    apply (rule turn, simp add: model_defs)
    done
  then show ?thesis by (simp add: initial_state_def)
qed

section \<open>Parameter records\<close>

text \<open>
  The entries of a payload, eight bytes each (address, key, value, least significant byte
  first), and the start time the format description gives a record: the value of the last
  entry with address 1 and key 12, or the start time before the record when it has no
  such entry.
\<close>

fun param_entries :: "nat \<Rightarrow> u8 list \<Rightarrow> (u16 \<times> u16 \<times> u32) list" where
  "param_entries 0 bs = []"
| "param_entries (Suc n) bs =
     (le_word (take 2 bs), le_word (take 2 (drop 2 bs)), le_word (take 4 (drop 4 bs)))
       # param_entries n (drop 8 bs)"


definition is_start_time_entry :: "u16 \<times> u16 \<times> u32 \<Rightarrow> bool" where
  "is_start_time_entry e = (fst e = 1 \<and> fst (snd e) = 12)"

definition claimed_start_time :: "u32 \<Rightarrow> (u16 \<times> u16 \<times> u32) list \<Rightarrow> u32" where
  "claimed_start_time t es =
     (case filter is_start_time_entry es of
        [] \<Rightarrow> t
      | x # xs \<Rightarrow> snd (snd (last (x # xs))))"

lemma claimed_start_time_Nil: "claimed_start_time t [] = t"
  by (simp add: claimed_start_time_def)

lemma claimed_start_time_Cons:
  "claimed_start_time t (e # es) =
     claimed_start_time (if is_start_time_entry e then snd (snd e) else t) es"
  by (cases "filter is_start_time_entry es") (simp_all add: claimed_start_time_def)

lemma stream_read_full:
  assumes "\<not> sfail s" "spos s + n \<le> length (sdata s)"
  shows "stream_read s n = (s\<lparr>spos := spos s + n\<rparr>, take n (drop (spos s) (sdata s)))"
  using assms by (simp add: stream_read_def Let_def min_def)

lemma read_word_full:
  assumes "\<not> sfail s" "spos s + n \<le> length (sdata s)"
  shows "read_word s n old = (s\<lparr>spos := spos s + n\<rparr>, le_word (take n (drop (spos s) (sdata s))))"
  using assms by (simp add: read_word_def stream_read_full le_bytes_def)

text \<open>The entry that starts a list of bytes.\<close>

definition entry_at :: "u8 list \<Rightarrow> u16 \<times> u16 \<times> u32" where
  "entry_at bs = (le_word (take 2 bs), le_word (take 2 (drop 2 bs)), le_word (take 4 (drop 4 bs)))"

lemma param_entry_full:
  assumes "\<not> sfail (p_stream st)" "spos (p_stream st) + 8 \<le> length (sdata (p_stream st))"
  shows "p_stream (param_entry st) = (p_stream st)\<lparr>spos := spos (p_stream st) + 8\<rparr>"
    and "p_start_time (param_entry st) =
      (let e = entry_at (drop (spos (p_stream st)) (sdata (p_stream st)))
       in if is_start_time_entry e then snd (snd e) else p_start_time st)"
  using assms
  by (simp_all add: param_entry_def read_word_full Let_def is_start_time_entry_def entry_at_def
      add.commute del: add_2_eq_Suc add_2_eq_Suc')

lemma param_loop_full:
  assumes "\<not> sfail (p_stream st)" "spos (p_stream st) + 8 * n \<le> length (sdata (p_stream st))"
  shows "p_stream (param_loop n st) = (p_stream st)\<lparr>spos := spos (p_stream st) + 8 * n\<rparr> \<and>
         p_start_time (param_loop n st) =
           claimed_start_time (p_start_time st)
             (param_entries n (drop (spos (p_stream st)) (sdata (p_stream st))))"
  using assms
proof (induction n arbitrary: st)
  case 0
  then show ?case by (simp add: claimed_start_time_Nil)
next
  case (Suc n)
  let ?st = "param_entry st"
  from Suc.prems have a: "\<not> sfail (p_stream st)" "spos (p_stream st) + 8 \<le> length (sdata (p_stream st))"
    by simp_all
  note e = param_entry_full [OF a]
  have "\<not> sfail (p_stream ?st)" "spos (p_stream ?st) + 8 * n \<le> length (sdata (p_stream ?st))"
    using Suc.prems by (simp_all add: e)
  from Suc.IH [OF this] show ?case
    by (simp add: e claimed_start_time_Cons entry_at_def Let_def add.commute)
qed


lemma ParseParameters_full:
  assumes "\<not> sfail s" "spos s + 8 * nat (bytes div 8) \<le> length (sdata s)"
  shows "ParseParameters u s bytes t =
     (s\<lparr>spos := spos s + 8 * nat (bytes div 8)\<rparr>,
      claimed_start_time t (param_entries (nat (bytes div 8)) (drop (spos s) (sdata s))))"
  using param_loop_full [of "\<lparr>p_stream = s, p_address = u_address u, p_key = u_key u,
      p_value = u_value u, p_start_time = t\<rparr>" "nat (bytes div 8)"] assms
  by (simp add: ParseParameters_def Let_def)

lemma entry_count: "nat (uint sz div 8) = unat sz div 8"
  by (simp add: nat_div_distrib)

text \<open>
  Claim C9. Decoding a parameter record changes \<open>start_time\<close> only: the sample table, the
  time stamps and \<open>total_records\<close> are as before (whatever the stream holds), and for a
  record whose payload is in the file, \<open>start_time\<close> becomes the value of the last entry
  with address 1 and key 12 and stays what it was when there is no such entry. The start
  time before the record is the one earlier records left, so the last such entry of the
  file wins.
\<close>

theorem parameters_record_effect:
  assumes "g_type st = RECORDTYPE_PARAMETERS"
  shows "g_activity (dispatch u sample_rate k st) = g_activity st \<and>
         g_timeStamps (dispatch u sample_rate k st) = g_timeStamps st \<and>
         g_total_records (dispatch u sample_rate k st) = g_total_records st \<and>
         (\<not> sfail (g_stream st) \<and>
          spos (g_stream st) + 8 * (unat (g_size st) div 8) \<le> length (sdata (g_stream st)) \<longrightarrow>
            g_start_time (dispatch u sample_rate k st) =
              claimed_start_time (g_start_time st)
                (param_entries (unat (g_size st) div 8)
                   (drop (spos (g_stream st)) (sdata (g_stream st)))))"
proof -
  have frame: "g_activity (dispatch u sample_rate k st) = g_activity st \<and>
         g_timeStamps (dispatch u sample_rate k st) = g_timeStamps st \<and>
         g_total_records (dispatch u sample_rate k st) = g_total_records st"
    using assms by (simp add: dispatch_def split: prod.splits)
  have "g_start_time (dispatch u sample_rate k st) =
          claimed_start_time (g_start_time st)
            (param_entries (unat (g_size st) div 8)
               (drop (spos (g_stream st)) (sdata (g_stream st))))"
    if "\<not> sfail (g_stream st)"
      "spos (g_stream st) + 8 * (unat (g_size st) div 8) \<le> length (sdata (g_stream st))"
    using assms that
      ParseParameters_full [of "g_stream st" "uint (g_size st)" u "g_start_time st"]
    by (simp add: dispatch_def entry_count)
  with frame show ?thesis by blast
qed

definition parameters_state :: parser_state where
  "parameters_state =
     \<lparr>g_stream = open_stream
        [1, 0, 12, 0, 0xE8, 0x03, 0, 0,
         0, 0, 49, 0, 5, 0, 0, 0,
         1, 0, 12, 0, 0xD0, 0x07, 0, 0,
         0],
      g_activity = [[1, 2, 3]], g_timeStamps = [7],
      g_type = 0x15, g_size = 24, g_payload_start = 0, g_start_time = 0,
      g_total_records = 1, g_warnings = []\<rparr>"

theorem parameters_record_effect_witness:
  "g_type parameters_state = RECORDTYPE_PARAMETERS \<and>
   \<not> sfail (g_stream parameters_state) \<and>
   spos (g_stream parameters_state) + 8 * (unat (g_size parameters_state) div 8)
     \<le> length (sdata (g_stream parameters_state)) \<and>
   g_activity (dispatch zero_init 100 0 parameters_state) = [[1, 2, 3]] \<and>
   g_timeStamps (dispatch zero_init 100 0 parameters_state) = [7] \<and>
   g_total_records (dispatch zero_init 100 0 parameters_state) = 1 \<and>
   g_start_time (dispatch zero_init 100 0 parameters_state) = 2000"
proof -
  have t: "g_type parameters_state = RECORDTYPE_PARAMETERS"
    by (simp add: parameters_state_def RECORDTYPE_PARAMETERS_def)
  have e: "param_entries (unat (g_size parameters_state) div 8)
             (drop (spos (g_stream parameters_state)) (sdata (g_stream parameters_state)))
           = [(1, 12, 1000), (0, 49, 5), (1, 12, 2000)]"
    by (simp add: parameters_state_def open_stream_def numeral_3_eq_3)
  show ?thesis
    using parameters_record_effect [OF t, of zero_init 100 0]
    unfolding e
    by (simp add: parameters_state_def open_stream_def claimed_start_time_def
        is_start_time_entry_def RECORDTYPE_PARAMETERS_def)
qed

section \<open>The packed activity decoder\<close>

text \<open>
  The payload of an Activity record is a string of bits, most significant bit first, cut
  into fields of 12 bits: field \<open>k\<close> starts in byte \<open>3k div 2\<close>, at the byte boundary
  when \<open>k\<close> is even and at the low nibble when \<open>k\<close> is odd, and ends in the next byte.
\<close>

definition field12 :: "u8 list \<Rightarrow> nat \<Rightarrow> u16" where
  "field12 bs k =
     (let a = bs ! (3 * k div 2); b = bs ! (3 * k div 2 + 1)
      in if even k then push_bit 4 (ucast a) OR drop_bit 4 (ucast b)
         else push_bit 8 (ucast a AND 0x0F) OR ucast b)"

text \<open>The sample value of field \<open>k\<close>.\<close>

definition decoded :: "u8 list \<Rightarrow> nat \<Rightarrow> real" where
  "decoded bs k = real_of_int (sign_extend12 (field12 bs k))"

text \<open>
  The state of \<open>ParseActivity\<close> after \<open>k\<close> values of a payload that starts at the
  position of \<open>s0\<close>: the bytes of \<open>k\<close> fields are consumed (rounded up to a whole byte),
  the phase is the parity of \<open>k\<close>, and in the odd phase \<open>current\<close> is the byte whose low
  nibble starts field \<open>k\<close>.
\<close>

definition in_phase :: "istream \<Rightarrow> nat \<Rightarrow> act1_state \<Rightarrow> bool" where
  "in_phase s0 k st =
     (a1_stream st = s0\<lparr>spos := spos s0 + (3 * k + 1) div 2\<rparr> \<and>
      a1_odd st = odd k \<and>
      (odd k \<longrightarrow> a1_current st = uint (sdata s0 ! (spos s0 + 3 * k div 2))))"

text \<open>The writes of row \<open>i\<close> of a record, as functions of the payload.\<close>

definition write_row :: "u8 list \<Rightarrow> nat \<Rightarrow> nat \<Rightarrow> matrix \<Rightarrow> matrix" where
  "write_row bs start i M =
     set_cell (set_cell (set_cell M (i + start) 0 (decoded bs (3 * i)))
                 (i + start) 1 (decoded bs (3 * i + 1)))
              (i + start) 2 (decoded bs (3 * i + 2))"

definition write_stamp :: "nat \<Rightarrow> u32 \<Rightarrow> int \<Rightarrow> u32 \<Rightarrow> nat \<Rightarrow> int list \<Rightarrow> int list" where
  "write_stamp start payload_start sample_rate start_time i T =
     set_stamp T (i + start) (createTimeStamp payload_start (int i) sample_rate start_time)"

text \<open>A matrix whose rows all have three cells, as the one \<open>parseGT3X\<close> allocates.\<close>

definition well_formed :: "matrix \<Rightarrow> bool" where
  "well_formed M = (\<forall>row \<in> set M. length row = N_ACTIVITYCOLUMNS)"

text \<open>The bytes of the six fields 0x001, 0xFFF, 0x800, 0x123, 0x456, 0x889.\<close>

definition packed_stream :: istream where
  "packed_stream = open_stream [0x00, 0x1F, 0xFF, 0x80, 0x01, 0x23, 0x45, 0x68, 0x89]"

lemma sign_extend12_bits: "sign_extend12 (f AND mask 12) = sint (ucast f :: 12 word)"
proof -
  have c: "(0x0800 :: u16) = 2 ^ 11" "(0xF000 :: u16) = NOT (mask 12)"
    by (simp_all add: mask_eq_exp_minus_1)
  have b: "(0 \<noteq> ((f AND mask 12) AND 2 ^ 11)) = bit f 11"
    using and_exp_eq_0_iff_not_bit [of "f AND mask 12" 11] by (auto simp: bit_simps)
  have "sint (if bit f 11 then (f AND mask 12) OR NOT (mask 12) else f AND mask 12)
          = sint (ucast f :: 12 word)"
  proof (rule bit_eqI)
    fix n :: nat
    consider "n < 11" | "n = 11" | "11 < n" by linarith
    then show "bit (sint (if bit f 11 then (f AND mask 12) OR NOT (mask 12) else f AND mask 12)) n
       = bit (sint (ucast f :: 12 word)) n"
      by cases (auto simp: bit_sint_iff bit_simps)
  qed
  then show ?thesis
    unfolding sign_extend12_def c b .
qed

lemma sign_extend12_arith:
  assumes "f < 0x1000"
  shows "sign_extend12 f = (if f < 0x800 then uint f else uint f - 4096)"
proof -
  from assms have u: "uint f < 4096"
    by (simp add: word_less_alt)
  have l: "(f < 0x800) = (uint f < 2048)"
    by (simp add: word_less_alt)
  from assms have "f AND mask 12 = f"
    by (intro less_mask_eq) simp
  then have "sign_extend12 f = sint (ucast f :: 12 word)"
    using sign_extend12_bits [of f] by simp
  also have "\<dots> = signed_take_bit 11 (uint f)"
    by (simp add: signed_ucast_eq)
  also have "\<dots> = (uint f + 2048) mod 4096 - 2048"
    by (simp add: signed_take_bit_eq_take_bit_shift take_bit_eq_mod)
  also have "\<dots> = (if uint f < 2048 then uint f else uint f - 4096)"
  proof (cases "uint f < 2048")
    case True
    then show ?thesis by (simp add: mod_pos_pos_trivial)
  next
    case False
    with u have "(uint f + 2048) mod 4096 = uint f + 2048 - 4096"
      using mod_pos_geq [of 4096 "uint f + 2048"] by (simp add: mod_pos_pos_trivial)
    with False show ?thesis by simp
  qed
  finally show ?thesis
    unfolding l .
qed

lemma even_field_bytes:
  "even_field (uint b0) (uint b1) = push_bit 4 (ucast b0) OR drop_bit 4 (ucast b1)"
  for b0 b1 :: u8
proof -
  have m: "(0xFF :: int) = mask 8" "(0xF0 :: int) = push_bit 4 (mask 4)"
    by (simp_all add: mask_eq_exp_minus_1)
  have a: "(word_of_int (push_bit 4 (uint b0 AND mask 8)) :: u16) = push_bit 4 (ucast b0)"
    by (rule bit_eqI) (auto simp: bit_simps dest: bit_imp_le_length)
  have b: "(word_of_int (drop_bit 4 (uint b1 AND push_bit 4 (mask 4))) :: u16) = drop_bit 4 (ucast b1)"
    by (rule bit_eqI) (auto simp: bit_simps dest: bit_imp_le_length)
  show ?thesis
    unfolding even_field_def m a b ..
qed

lemma odd_field_bytes:
  "odd_field (uint b0) (uint b1) = push_bit 8 (ucast b0 AND 0x0F) OR ucast b1"
  for b0 b1 :: u8
proof -
  have m: "(0xFF :: int) = mask 8" "(0x0F :: int) = mask 4" "(0x0F :: u16) = mask 4"
    by (simp_all add: mask_eq_exp_minus_1)
  have a: "(word_of_int (push_bit 8 (uint b0 AND mask 4)) :: u16) = push_bit 8 (ucast b0 AND mask 4)"
    by (rule bit_eqI) (auto simp: bit_simps dest: bit_imp_le_length)
  have b: "(word_of_int (uint b1 AND mask 8) :: u16) = ucast b1"
    by (rule bit_eqI) (auto simp: bit_simps dest: bit_imp_le_length)
  show ?thesis
    unfolding odd_field_def m a b ..
qed


lemma act1_value_even:
  assumes "\<not> a1_odd st" "\<not> sfail (a1_stream st)"
    "spos (a1_stream st) + 2 \<le> length (sdata (a1_stream st))"
  shows "act1_value r j st =
     (True, st\<lparr>a1_stream := (a1_stream st)\<lparr>spos := spos (a1_stream st) + 2\<rparr>,
               a1_current := uint (sdata (a1_stream st) ! (spos (a1_stream st) + 1)),
               a1_odd := True,
               a1_activity := set_cell (a1_activity st) r j
                 (real_of_int (sign_extend12
                    (even_field (uint (sdata (a1_stream st) ! spos (a1_stream st)))
                       (uint (sdata (a1_stream st) ! (spos (a1_stream st) + 1))))))\<rparr>)"
  using assms by (simp add: act1_value_def stream_get_def Let_def)

lemma act1_value_odd:
  assumes "a1_odd st" "\<not> sfail (a1_stream st)"
    "spos (a1_stream st) + 1 \<le> length (sdata (a1_stream st))"
  shows "act1_value r j st =
     (True, st\<lparr>a1_stream := (a1_stream st)\<lparr>spos := spos (a1_stream st) + 1\<rparr>,
               a1_current := uint (sdata (a1_stream st) ! spos (a1_stream st)),
               a1_odd := False,
               a1_activity := set_cell (a1_activity st) r j
                 (real_of_int (sign_extend12
                    (odd_field (a1_current st)
                       (uint (sdata (a1_stream st) ! spos (a1_stream st))))))\<rparr>)"
  using assms by (simp add: act1_value_def stream_get_def Let_def)

lemma act1_value_in_phase:
  assumes s0: "\<not> sfail s0"
    and ph: "in_phase s0 k st"
    and len: "spos s0 + (3 * k + 4) div 2 \<le> length (sdata s0)"
  shows "\<exists>st'. act1_value r j st = (True, st') \<and> in_phase s0 (Suc k) st' \<and>
           a1_activity st' = set_cell (a1_activity st) r j (decoded (drop (spos s0) (sdata s0)) k) \<and>
           a1_timeStamps st' = a1_timeStamps st"
proof (cases "even k")
  case True
  then obtain m where k: "k = 2 * m" by (elim evenE)
  have ar: "(3 * k + 1) div 2 = 3 * m" "3 * k div 2 = 3 * m" "(3 * k + 4) div 2 = 3 * m + 2"
    "(3 * Suc k + 1) div 2 = 3 * m + 2" "3 * Suc k div 2 = 3 * m + 1"
    "(3 + 3 * k) div 2 = 3 * m + 1" "(4 + 3 * k) div 2 = 3 * m + 2"
    unfolding k by simp_all
  from ph True have st: "a1_stream st = s0\<lparr>spos := spos s0 + 3 * m\<rparr>" "\<not> a1_odd st"
    by (simp_all add: in_phase_def ar)
  have pre: "\<not> sfail (a1_stream st)" "spos (a1_stream st) + 2 \<le> length (sdata (a1_stream st))"
    using s0 len by (simp_all add: st ar)
  have f: "field12 (drop (spos s0) (sdata s0)) k =
      even_field (uint (sdata s0 ! (spos s0 + 3 * m))) (uint (sdata s0 ! (spos s0 + 3 * m + 1)))"
    using len True by (simp add: field12_def ar even_field_bytes Let_def add.assoc)
  show ?thesis
    unfolding act1_value_even [OF st(2) pre]
    using True by (simp add: in_phase_def ar st decoded_def f add.assoc)
next
  case False
  then obtain m where k: "k = 2 * m + 1" by (elim oddE)
  have ar: "(3 * k + 1) div 2 = 3 * m + 2" "3 * k div 2 = 3 * m + 1" "(3 * k + 4) div 2 = 3 * m + 3"
    "(3 * Suc k + 1) div 2 = 3 * m + 3" "3 * Suc k div 2 = 3 * m + 3"
    "(3 + 3 * k) div 2 = 3 * m + 3" "(4 + 3 * k) div 2 = 3 * m + 3"
    unfolding k by simp_all
  from ph False have st: "a1_stream st = s0\<lparr>spos := spos s0 + (3 * m + 2)\<rparr>" "a1_odd st"
    "a1_current st = uint (sdata s0 ! (spos s0 + (3 * m + 1)))"
    by (simp_all add: in_phase_def ar)
  have pre: "\<not> sfail (a1_stream st)" "spos (a1_stream st) + 1 \<le> length (sdata (a1_stream st))"
    using s0 len by (simp_all add: st ar)
  have f: "field12 (drop (spos s0) (sdata s0)) k =
      odd_field (uint (sdata s0 ! (spos s0 + (3 * m + 1)))) (uint (sdata s0 ! (spos s0 + (3 * m + 2))))"
    using len False by (simp add: field12_def ar odd_field_bytes Let_def add.assoc)
  show ?thesis
    unfolding act1_value_odd [OF st(2) pre]
    using False by (simp add: in_phase_def ar st decoded_def f add.assoc)
qed


lemma in_phase_frame [simp]:
  "in_phase s0 k (st\<lparr>a1_timeStamps := T\<rparr>) = in_phase s0 k st"
  by (simp add: in_phase_def)

lemma act1_cols_in_phase:
  assumes s0: "\<not> sfail s0"
    and ph: "in_phase s0 k st"
    and len: "spos s0 + (3 * k + 10) div 2 \<le> length (sdata s0)"
  shows "in_phase s0 (k + 3) (act1_cols r [0, 1, 2] st) \<and>
         a1_activity (act1_cols r [0, 1, 2] st) =
           set_cell (set_cell (set_cell (a1_activity st) r 0 (decoded (drop (spos s0) (sdata s0)) k))
                        r 1 (decoded (drop (spos s0) (sdata s0)) (k + 1)))
                    r 2 (decoded (drop (spos s0) (sdata s0)) (k + 2)) \<and>
         a1_timeStamps (act1_cols r [0, 1, 2] st) = a1_timeStamps st"
proof -
  have l0: "spos s0 + (3 * k + 4) div 2 \<le> length (sdata s0)"
    and l1: "spos s0 + (3 * Suc k + 4) div 2 \<le> length (sdata s0)"
    and l2: "spos s0 + (3 * Suc (Suc k) + 4) div 2 \<le> length (sdata s0)"
    using len by simp_all
  from act1_value_in_phase [OF s0 ph l0, of r 0] obtain st1 where
    v1: "act1_value r 0 st = (True, st1)" and p1: "in_phase s0 (Suc k) st1"
    and a1: "a1_activity st1 = set_cell (a1_activity st) r 0 (decoded (drop (spos s0) (sdata s0)) k)"
    and t1: "a1_timeStamps st1 = a1_timeStamps st"
    by blast
  from act1_value_in_phase [OF s0 p1 l1, of r "Suc 0"] obtain st2 where
    v2: "act1_value r (Suc 0) st1 = (True, st2)" and p2: "in_phase s0 (Suc (Suc k)) st2"
    and a2: "a1_activity st2 = set_cell (a1_activity st1) r (Suc 0) (decoded (drop (spos s0) (sdata s0)) (Suc k))"
    and t2: "a1_timeStamps st2 = a1_timeStamps st1"
    by blast
  from act1_value_in_phase [OF s0 p2 l2, of r 2] obtain st3 where
    v3: "act1_value r 2 st2 = (True, st3)" and p3: "in_phase s0 (Suc (Suc (Suc k))) st3"
    and a3: "a1_activity st3 = set_cell (a1_activity st2) r 2 (decoded (drop (spos s0) (sdata s0)) (Suc (Suc k)))"
    and t3: "a1_timeStamps st3 = a1_timeStamps st2"
    by blast
  have "act1_cols r [0, 1, 2] st = st3"
    by (simp add: v1 v2 v3)
  with p3 a1 a2 a3 t1 t2 t3 show ?thesis
    by (simp add: numeral_3_eq_3)
qed

lemma act1_row_in_phase:
  assumes s0: "\<not> sfail s0"
    and ph: "in_phase s0 (3 * i) st"
    and len: "spos s0 + (9 * i + 10) div 2 \<le> length (sdata s0)"
  shows "in_phase s0 (3 * Suc i) (act1_row start p r t i st) \<and>
         a1_activity (act1_row start p r t i st)
           = write_row (drop (spos s0) (sdata s0)) start i (a1_activity st) \<and>
         a1_timeStamps (act1_row start p r t i st) = write_stamp start p r t i (a1_timeStamps st)"
proof -
  have "spos s0 + (3 * (3 * i) + 10) div 2 \<le> length (sdata s0)"
    using len by simp
  note c = act1_cols_in_phase [OF s0 ph this, of "i + start"]
  have u: "[0..<N_ACTIVITYCOLUMNS] = [0, 1, 2]"
    by (simp add: N_ACTIVITYCOLUMNS_def numeral_3_eq_3)
  have k: "3 * i + 3 = 3 * Suc i"
    by simp
  show ?thesis
    unfolding act1_row_def u Let_def write_row_def write_stamp_def
    using c unfolding k by (simp del: act1_cols.simps)
qed

lemma act1_rows_in_phase:
  assumes s0: "\<not> sfail s0"
    and ph: "in_phase s0 0 st"
    and len: "spos s0 + (9 * n + 1) div 2 \<le> length (sdata s0)"
  shows "in_phase s0 (3 * n) (fold (act1_row start p r t) [0..<n] st) \<and>
         a1_activity (fold (act1_row start p r t) [0..<n] st)
           = fold (write_row (drop (spos s0) (sdata s0)) start) [0..<n] (a1_activity st) \<and>
         a1_timeStamps (fold (act1_row start p r t) [0..<n] st)
           = fold (write_stamp start p r t) [0..<n] (a1_timeStamps st)"
  using len
proof (induction n)
  case 0
  with ph show ?case by simp
next
  case (Suc n)
  have "(9 * n + 1) div 2 \<le> (9 * Suc n + 1) div 2"
    by (intro div_le_mono) simp
  with Suc.prems have "spos s0 + (9 * n + 1) div 2 \<le> length (sdata s0)"
    by linarith
  note ih = Suc.IH [OF this]
  have "spos s0 + (9 * n + 10) div 2 \<le> length (sdata s0)"
    using Suc.prems by simp
  from act1_row_in_phase [OF s0 ih [THEN conjunct1] this, of start p r t]
  show ?case
    using ih by simp
qed


lemma length_set_cell [simp]: "length (set_cell M r j v) = length M"
  by (simp add: set_cell_def)

lemma well_formed_set_cell: "well_formed M \<Longrightarrow> well_formed (set_cell M r j v)"
  unfolding well_formed_def set_cell_def
  by (cases "r < length M") (auto simp: set_conv_nth nth_list_update)

lemma well_formed_nth: "well_formed M \<Longrightarrow> r < length M \<Longrightarrow> length (M ! r) = 3"
  by (simp add: well_formed_def N_ACTIVITYCOLUMNS_def)

lemma cell_set_cell:
  assumes "r < length M" "j < length (M ! r)"
  shows "cell (set_cell M r j v) r' j' = (if r' = r \<and> j' = j then v else cell M r' j')"
  using assms by (auto simp: cell_def set_cell_def nth_list_update)

lemma length_write_row [simp]: "length (write_row bs start i M) = length M"
  by (simp add: write_row_def)

lemma well_formed_write_row: "well_formed M \<Longrightarrow> well_formed (write_row bs start i M)"
  by (simp add: write_row_def well_formed_set_cell)

lemma cell_write_row:
  assumes "well_formed M" "i + start < length M" "j' < 3"
  shows "cell (write_row bs start i M) r' j' =
           (if r' = i + start then decoded bs (3 * i + j') else cell M r' j')"
proof -
  let ?r = "i + start"
  let ?M1 = "set_cell M ?r 0 (decoded bs (3 * i))"
  let ?M2 = "set_cell ?M1 ?r 1 (decoded bs (3 * i + 1))"
  have w1: "well_formed ?M1" and w2: "well_formed ?M2"
    using assms(1) by (simp_all add: well_formed_set_cell)
  have l: "length (M ! ?r) = 3" "length (?M1 ! ?r) = 3" "length (?M2 ! ?r) = 3"
    using assms(1,2) w1 w2 by (simp_all add: well_formed_nth)
  from assms(3) consider "j' = 0" | "j' = 1" | "j' = 2" by linarith
  then show ?thesis
    using assms(2) l by cases (simp_all add: write_row_def cell_set_cell)
qed

lemma fold_write_row:
  assumes "well_formed M" "start + n \<le> length M"
  shows "well_formed (fold (write_row bs start) [0..<n] M) \<and>
         length (fold (write_row bs start) [0..<n] M) = length M \<and>
         (\<forall>i<n. \<forall>j<3. cell (fold (write_row bs start) [0..<n] M) (i + start) j
                          = decoded bs (3 * i + j))"
  using assms(2)
proof (induction n)
  case 0
  with assms(1) show ?case by simp
next
  case (Suc n)
  let ?M = "fold (write_row bs start) [0..<n] M"
  from Suc.prems have "start + n \<le> length M" by simp
  note ih = Suc.IH [OF this]
  have c: "cell (write_row bs start n ?M) r' j' =
           (if r' = n + start then decoded bs (3 * n + j') else cell ?M r' j')" if "j' < 3" for r' j'
    using ih Suc.prems that by (intro cell_write_row) simp_all
  show ?case
    using ih by (auto simp: well_formed_write_row c less_Suc_eq)
qed


lemma field12_twelve_bits: "field12 bs k AND mask 12 = field12 bs k"
proof -
  have m: "(0x0F :: u16) = mask 4"
    by (simp add: mask_eq_exp_minus_1)
  show ?thesis
    unfolding field12_def Let_def m
    by (rule bit_eqI) (auto simp: bit_simps dest: bit_imp_le_length)
qed

lemma ParseActivity_decodes:
  assumes s: "\<not> sfail s"
    and len: "spos s + (9 * n + 1) div 2 \<le> length (sdata s)"
    and wf: "well_formed M"
    and cap: "start + n \<le> length M"
  shows "fst (ParseActivity s M T start n p r t) = s\<lparr>spos := spos s + (9 * n + 1) div 2\<rparr> \<and>
         (\<forall>i<n. \<forall>j<3. cell (fst (snd (ParseActivity s M T start n p r t))) (i + start) j
                          = decoded (drop (spos s) (sdata s)) (3 * i + j))"
proof -
  let ?st = "\<lparr>a1_stream = s, a1_activity = M, a1_timeStamps = T, a1_odd = False, a1_current = 0\<rparr>"
  have ph: "in_phase s 0 ?st"
    by (simp add: in_phase_def)
  note run = act1_rows_in_phase [OF s ph len, of start p r t]
  note cells = fold_write_row [OF wf cap, of "drop (spos s) (sdata s)"]
  from run have "a1_stream (fold (act1_row start p r t) [0..<n] ?st)
      = s\<lparr>spos := spos s + (9 * n + 1) div 2\<rparr>"
    by (simp add: in_phase_def)
  with run cells show ?thesis
    by (simp add: ParseActivity_def Let_def)
qed

text \<open>
  Claim C4. In the decoder of 12-bit packed records every assembled field is
  sign-extended (0xF000 is ORed in when bit 11 is set) and read as a 16-bit signed
  integer: 0xFFF gives -1, 0x800 gives -2048, 0x001 gives 1, and in general a field below
  0x800 gives itself and any other 12-bit field gives itself minus 4096. The phase
  toggles after every value and runs across the whole payload: for a record of \<open>n\<close>
  samples whose payload is in the file, the decoder consumes \<open>\<lceil>9n/2\<rceil>\<close> bytes and writes
  into column \<open>j\<close> of row \<open>i\<close> the sign-extended field \<open>3i + j\<close> of the payload, so a row
  starts in the odd phase whenever it follows an odd number of rows.
\<close>

theorem sign_extension_and_phase:
  "sign_extend12 0xFFF = - 1 \<and> sign_extend12 0x800 = - 2048 \<and> sign_extend12 0x001 = 1 \<and>
   (f < 0x1000 \<longrightarrow> sign_extend12 f = (if f < 0x800 then uint f else uint f - 4096)) \<and>
   sign_extend12 (field12 bs k) = sint (ucast (field12 bs k) :: 12 word) \<and>
   (\<not> sfail s \<and> spos s + (9 * n + 1) div 2 \<le> length (sdata s) \<and>
    well_formed M \<and> start + n \<le> length M \<longrightarrow>
      fst (ParseActivity s M T start n p r t) = s\<lparr>spos := spos s + (9 * n + 1) div 2\<rparr> \<and>
      (\<forall>i<n. \<forall>j<3.
         cell (fst (snd (ParseActivity s M T start n p r t))) (i + start) j
           = real_of_int (sign_extend12 (field12 (drop (spos s) (sdata s)) (3 * i + j)))))"
proof -
  have "sign_extend12 0xFFF = - 1" "sign_extend12 0x800 = - 2048" "sign_extend12 0x001 = 1"
    by (simp_all add: sign_extend12_def)
  moreover have "sign_extend12 (field12 bs k) = sint (ucast (field12 bs k) :: 12 word)"
    using sign_extend12_bits [of "field12 bs k"] by (simp add: field12_twelve_bits)
  ultimately show ?thesis
    using sign_extend12_arith [of f] ParseActivity_decodes [of s n M start T p r t]
    by (simp add: decoded_def)
qed

theorem sign_extension_and_phase_witness:
  "(0x800 :: u16) < 0x1000 \<and> sign_extend12 0x800 = uint (0x800 :: u16) - 4096 \<and>
   \<not> sfail packed_stream \<and>
   spos packed_stream + (9 * 2 + 1) div 2 \<le> length (sdata packed_stream) \<and>
   well_formed (new_matrix 2) \<and> 0 + 2 \<le> length (new_matrix 2) \<and>
   fst (ParseActivity packed_stream (new_matrix 2) [0, 0] 0 2 1000 30 1000)
     = packed_stream\<lparr>spos := 9\<rparr> \<and>
   cell (fst (snd (ParseActivity packed_stream (new_matrix 2) [0, 0] 0 2 1000 30 1000))) 0 2 = - 2048 \<and>
   cell (fst (snd (ParseActivity packed_stream (new_matrix 2) [0, 0] 0 2 1000 30 1000))) 1 0 = 291 \<and>
   cell (fst (snd (ParseActivity packed_stream (new_matrix 2) [0, 0] 0 2 1000 30 1000))) 1 2 = - 1911"
proof -
  have h: "\<not> sfail packed_stream"
    "spos packed_stream + (9 * 2 + 1) div 2 \<le> length (sdata packed_stream)"
    "well_formed (new_matrix 2)" "0 + 2 \<le> length (new_matrix 2)"
    by (simp_all add: packed_stream_def open_stream_def new_matrix_def well_formed_def)
  have v: "sign_extend12 (field12 (drop (spos packed_stream) (sdata packed_stream)) (3 * 0 + 2)) = - 2048"
    "sign_extend12 (field12 (drop (spos packed_stream) (sdata packed_stream)) (3 * 1 + 0)) = 291"
    "sign_extend12 (field12 (drop (spos packed_stream) (sdata packed_stream)) (3 * 1 + 2)) = - 1911"
    by (simp_all add: packed_stream_def open_stream_def field12_def sign_extend12_def)
  from sign_extension_and_phase [of "0x800" "[]" 0 packed_stream 2 "new_matrix 2" 0 "[0, 0]" 1000 30 1000] h
  have a: "sign_extend12 0x800 = uint (0x800 :: u16) - 4096"
    and b: "fst (ParseActivity packed_stream (new_matrix 2) [0, 0] 0 2 1000 30 1000)
      = packed_stream\<lparr>spos := spos packed_stream + (9 * 2 + 1) div 2\<rparr>"
    and c: "\<forall>i<2. \<forall>j<3.
         cell (fst (snd (ParseActivity packed_stream (new_matrix 2) [0, 0] 0 2 1000 30 1000))) (i + 0) j
           = real_of_int (sign_extend12 (field12 (drop (spos packed_stream) (sdata packed_stream)) (3 * i + j)))"
    by simp_all
  from c have
    "cell (fst (snd (ParseActivity packed_stream (new_matrix 2) [0, 0] 0 2 1000 30 1000))) (0 + 0) 2
       = real_of_int (sign_extend12 (field12 (drop (spos packed_stream) (sdata packed_stream)) (3 * 0 + 2)))"
    "cell (fst (snd (ParseActivity packed_stream (new_matrix 2) [0, 0] 0 2 1000 30 1000))) (1 + 0) 0
       = real_of_int (sign_extend12 (field12 (drop (spos packed_stream) (sdata packed_stream)) (3 * 1 + 0)))"
    "cell (fst (snd (ParseActivity packed_stream (new_matrix 2) [0, 0] 0 2 1000 30 1000))) (1 + 0) 2
       = real_of_int (sign_extend12 (field12 (drop (spos packed_stream) (sdata packed_stream)) (3 * 1 + 2)))"
    by simp_all
  then show ?thesis
    unfolding v using h a b by (simp add: packed_stream_def open_stream_def)
qed

section \<open>The capacity bound\<close>

text \<open>
  What holds of the variables of \<open>parseGT3X\<close> before and after every turn of its loop:
  the count is between 0 and \<open>max_samples\<close>, and the matrix and the vector of time stamps
  have \<open>max_samples\<close> rows.
\<close>

definition within_capacity :: "int \<Rightarrow> parser_state \<Rightarrow> bool" where
  "within_capacity max_samples st =
     (0 \<le> g_total_records st \<and> g_total_records st \<le> max_samples \<and>
      length (g_activity st) = nat max_samples \<and>
      length (g_timeStamps st) = nat max_samples \<and>
      well_formed (g_activity st))"

text \<open>A decoder returns a matrix and a vector of the sizes it was given.\<close>

definition same_shape :: "matrix \<Rightarrow> int list \<Rightarrow> matrix \<Rightarrow> int list \<Rightarrow> bool" where
  "same_shape M T M' T' =
     (length M' = length M \<and> length T' = length T \<and> (well_formed M \<longrightarrow> well_formed M'))"

lemma same_shape_refl: "same_shape M T M T"
  by (simp add: same_shape_def)

lemma same_shape_trans:
  "same_shape M T M' T' \<Longrightarrow> same_shape M' T' M'' T'' \<Longrightarrow> same_shape M T M'' T''"
  by (simp add: same_shape_def)

lemma same_shape_set_cell: "same_shape M T (set_cell M r j v) T"
  by (simp add: same_shape_def well_formed_set_cell)

lemma same_shape_set_stamp: "same_shape M T M (set_stamp T r t)"
  by (simp add: same_shape_def set_stamp_def)

lemma fold_same_shape:
  assumes "\<And>x st. same_shape (A st) (B st) (A (f x st)) (B (f x st))"
  shows "same_shape (A st) (B st) (A (fold f xs st)) (B (fold f xs st))"
proof (induction xs arbitrary: st)
  case Nil
  show ?case by (simp add: same_shape_refl)
next
  case (Cons x xs)
  show ?case
    using same_shape_trans [OF assms Cons.IH] by simp
qed

lemma act2_cell_shape:
  "same_shape (a2_activity st) (a2_timeStamps st)
     (a2_activity (act2_cell r j st)) (a2_timeStamps (act2_cell r j st))"
  by (simp add: act2_cell_def same_shape_set_cell split: prod.splits)

lemma act2_row_shape:
  "same_shape (a2_activity st) (a2_timeStamps st)
     (a2_activity (act2_row a p r t i st)) (a2_timeStamps (act2_row a p r t i st))"
proof -
  let ?st = "fold (act2_cell (i + a)) [0..<N_ACTIVITYCOLUMNS] st"
  have "same_shape (a2_activity st) (a2_timeStamps st) (a2_activity ?st) (a2_timeStamps ?st)"
    by (rule fold_same_shape) (rule act2_cell_shape)
  then show ?thesis
    using same_shape_set_stamp [of "a2_activity ?st" "a2_timeStamps ?st"]
    by (auto simp: act2_row_def Let_def intro: same_shape_trans)
qed

lemma ParseActivity2_shape:
  "same_shape M T (fst (snd (ParseActivity2 u s M T a n p r t)))
     (snd (snd (ParseActivity2 u s M T a n p r t)))"
  using fold_same_shape [of a2_activity a2_timeStamps "act2_row a p r t", OF act2_row_shape,
    of "\<lparr>a2_stream = s, a2_activity = M, a2_timeStamps = T, a2_item = u_item u\<rparr>" "[0..<n]"]
  by (simp add: ParseActivity2_def Let_def)

lemma act1_value_shape:
  "same_shape (a1_activity st) (a1_timeStamps st)
     (a1_activity (snd (act1_value r j st))) (a1_timeStamps (snd (act1_value r j st)))"
  by (simp add: act1_value_def Let_def same_shape_set_cell same_shape_refl split: prod.splits)

lemma act1_cols_shape:
  "same_shape (a1_activity st) (a1_timeStamps st)
     (a1_activity (act1_cols r js st)) (a1_timeStamps (act1_cols r js st))"
proof (induction js arbitrary: st)
  case Nil
  show ?case by (simp add: same_shape_refl)
next
  case (Cons j js)
  show ?case
  proof (cases "act1_value r j st")
    case (Pair b st')
    with act1_value_shape [of st r j] Cons.IH [of st'] show ?thesis
      by (cases b) (auto intro: same_shape_trans)
  qed
qed

lemma act1_row_shape:
  "same_shape (a1_activity st) (a1_timeStamps st)
     (a1_activity (act1_row a p r t i st)) (a1_timeStamps (act1_row a p r t i st))"
proof -
  let ?st = "act1_cols (i + a) [0..<N_ACTIVITYCOLUMNS] st"
  show ?thesis
    using act1_cols_shape [of st "i + a" "[0..<N_ACTIVITYCOLUMNS]"]
      same_shape_set_stamp [of "a1_activity ?st" "a1_timeStamps ?st"]
    by (auto simp: act1_row_def Let_def intro: same_shape_trans)
qed

lemma ParseActivity_shape:
  "same_shape M T (fst (snd (ParseActivity s M T a n p r t)))
     (snd (snd (ParseActivity s M T a n p r t)))"
  using fold_same_shape [of a1_activity a1_timeStamps "act1_row a p r t", OF act1_row_shape,
    of "\<lparr>a1_stream = s, a1_activity = M, a1_timeStamps = T, a1_odd = False, a1_current = 0\<rparr>"
      "[0..<n]"]
  by (simp add: ParseActivity_def Let_def)

lemma bytes2samplesize_nonneg: "0 \<le> bytes2samplesize ty sz"
  by (simp add: bytes2samplesize_def pos_imp_zdiv_nonneg_iff)

lemma dispatch_capacity:
  assumes "within_capacity ms st" "\<not> k > ms - g_total_records st" "0 \<le> k"
  shows "within_capacity ms (dispatch u sr k st)"
  using assms
    ParseActivity_shape [of "g_activity st" "g_timeStamps st" "g_stream st"
      "nat (g_total_records st)" "nat k" "g_payload_start st" sr "g_start_time st"]
    ParseActivity2_shape [of "g_activity st" "g_timeStamps st" u "g_stream st"
      "nat (g_total_records st)" "nat k" "g_payload_start st" sr "g_start_time st"]
  by (auto simp: dispatch_def within_capacity_def same_shape_def split: prod.splits)


lemma frame_step_capacity:
  assumes inv: "within_capacity ms st" and step: "frame_step u ms sr st = (b, st')"
  shows "within_capacity ms st'"
proof -
  obtain s1 c where g: "stream_get (g_stream st) = (s1, c)"
    by (cases "stream_get (g_stream st)")
  obtain s2 ty ps sz where h: "ParseHeader s1 (g_type st) (g_payload_start st) (g_size st) = (s2, ty, ps, sz)"
    by (cases "ParseHeader s1 (g_type st) (g_payload_start st) (g_size st)") auto
  define st1 where "st1 = st\<lparr>g_stream := s2, g_type := ty, g_payload_start := ps, g_size := sz\<rparr>"
  define k where "k = bytes2samplesize ty sz"
  have i1: "within_capacity ms st1" and t1: "g_total_records st1 = g_total_records st"
    using inv by (simp_all add: st1_def within_capacity_def)
  have d: "within_capacity ms (dispatch u sr k st1)" if "\<not> k > ms - g_total_records st"
    using i1 that bytes2samplesize_nonneg [of ty sz]
    by (intro dispatch_capacity) (simp_all add: t1 k_def)
  from step g h inv d show ?thesis
    by (auto simp: frame_step_def Let_def within_capacity_def st1_def k_def
        split: if_splits prod.splits)
qed

lemma frame_step_break:
  assumes "frame_step u ms sr st = (False, st')"
  shows "g_activity st' = g_activity st \<and> g_timeStamps st' = g_timeStamps st \<and>
         g_total_records st' = g_total_records st \<and> g_start_time st' = g_start_time st"
  using assms
  by (auto simp: frame_step_def Let_def split: if_splits prod.splits)

lemma parse_loop_invariant:
  assumes "\<And>st b st'. I st \<Longrightarrow> \<not> sfail (g_stream st) \<Longrightarrow> frame_step u ms sr st = (b, st') \<Longrightarrow> I st'"
    and "I st"
  shows "I (parse_loop u ms sr st)"
  using assms
proof (induction u ms sr st rule: parse_loop.induct)
  case (1 u ms sr st)
  note step = "1.prems"(1) and inv = "1.prems"(2)
  show ?case
  proof (cases "sfail (g_stream st)")
    case True
    with inv show ?thesis
      by (simp add: parse_loop.simps)
  next
    case False
    obtain b st' where s: "frame_step u ms sr st = (b, st')"
      by (cases "frame_step u ms sr st")
    have i: "I st'"
      using step [OF inv False s] .
    show ?thesis
    proof (cases b)
      case True
      then have bt: "b = True" by simp
      from "1.IH" [OF False s [symmetric] bt step i] s True False show ?thesis
        by (simp add: parse_loop.simps)
    next
      case b: False
      with s i False show ?thesis
        by (simp add: parse_loop.simps)
    qed
  qed
qed

lemma parse_records_capacity:
  assumes "0 \<le> max_samples"
  shows "within_capacity max_samples (parse_records u bytes max_samples sample_rate)"
  unfolding parse_records_def
proof (rule parse_loop_invariant)
  show "within_capacity max_samples (initial_state u bytes max_samples)"
    using assms
    by (simp add: within_capacity_def initial_state_def new_matrix_def well_formed_def)
qed (rule frame_step_capacity)

lemma length_scale_cell [simp]: "length (scale_cell sc dm j i M) = length M"
  by (simp add: scale_cell_def)

lemma length_fold_scale_cell [simp]: "length (fold (scale_cell sc dm j) is M) = length M"
  by (induction "is" arbitrary: M) simp_all

lemma length_scaleAndRoundActivity [simp]: "length (scaleAndRoundActivity M sc n) = length M"
proof -
  have "length (fold (\<lambda>j. fold (scale_cell sc dm j) is) js M) = length M" for dm "is" js
    by (induction js arbitrary: M) simp_all
  then show ?thesis
    by (simp add: scaleAndRoundActivity_def Let_def)
qed

lemma parseGT3X_rows:
  assumes "0 \<le> max_samples"
  shows "(g_total_records (parse_records u bytes max_samples sample_rate) = 0 \<longrightarrow>
            parseGT3X u bytes max_samples scale_factor sample_rate = Inl RangeError) \<and>
         (1 \<le> g_total_records (parse_records u bytes max_samples sample_rate) \<longrightarrow>
            (\<exists>r. parseGT3X u bytes max_samples scale_factor sample_rate = Inr r \<and>
                 int (length (r_samples r))
                   = g_total_records (parse_records u bytes max_samples sample_rate) \<and>
                 int (length (r_time_index r))
                   = g_total_records (parse_records u bytes max_samples sample_rate)))"
  using assms parse_records_capacity [OF assms, of u bytes sample_rate]
  by (auto simp: parseGT3X_def Range_def subrange_def Let_def within_capacity_def
      N_ACTIVITYCOLUMNS_def)


text \<open>A byte that is not the separator is skipped, and nothing else changes.\<close>

lemma frame_step_desync:
  assumes "\<not> sfail (g_stream st)" "spos (g_stream st) < length (sdata (g_stream st))"
    "sdata (g_stream st) ! spos (g_stream st) \<noteq> 30"
  shows "frame_step u ms sr st =
           (True, st\<lparr>g_stream := (g_stream st)\<lparr>spos := spos (g_stream st) + 1\<rparr>\<rparr>)"
  using assms
  by (simp add: frame_step_def stream_get_def Let_def RECORD_SEPARATOR_def ios_cur_def
      word_of_int_uint)

text \<open>Only a turn that handles a Parameters record changes \<open>start_time\<close>.\<close>

lemma start_time_only_by_parameters:
  assumes "frame_step u ms sr st = (b, st')" "g_type st' \<noteq> RECORDTYPE_PARAMETERS"
  shows "g_start_time st' = g_start_time st"
  using assms
  by (auto simp: frame_step_def dispatch_def Let_def split: if_splits prod.splits)

end
